theory Spec2Isabelle
  imports Main "HOL-Library.Multiset"
begin

section \<open>Strings\<close>

text \<open>
  A Python \<open>str\<close> is modelled as a \<open>string\<close> whose characters are code points below
  256. On that range the characters that \<open>str.strip\<close>, \<open>str.lstrip\<close>,
  \<open>str.rstrip\<close> and \<open>int()\<close> treat as whitespace are U+0009 to U+000D, U+001C to
  U+0020, U+0085 and U+00A0.
\<close>

definition isspace :: "char \<Rightarrow> bool" where
  "isspace c \<longleftrightarrow>
     c \<in> set [CHR 0x09, CHR 0x0A, CHR 0x0B, CHR 0x0C, CHR 0x0D, CHR 0x1C, CHR 0x1D,
              CHR 0x1E, CHR 0x1F, CHR 0x20, CHR 0x85, CHR 0xA0]"

definition lstrip :: "string \<Rightarrow> string" where
  "lstrip s = dropWhile isspace s"

definition rstrip :: "string \<Rightarrow> string" where
  "rstrip s = rev (dropWhile isspace (rev s))"

definition strip :: "string \<Rightarrow> string" where
  "strip s = lstrip (rstrip s)"

text \<open>\<open>needle in haystack\<close> on two strings: the substring test.\<close>

fun is_substring :: "string \<Rightarrow> string \<Rightarrow> bool" where
  "is_substring needle [] = (needle = [])"
| "is_substring needle (c # cs) =
     (take (length needle) (c # cs) = needle \<or> is_substring needle cs)"

text \<open>\<open>s.split(sep)\<close> for a one-character separator: always at least one part.\<close>

fun split_acc :: "char \<Rightarrow> string \<Rightarrow> string \<Rightarrow> string list" where
  "split_acc sep cur [] = [cur]"
| "split_acc sep cur (c # cs) =
     (if c = sep then cur # split_acc sep [] cs else split_acc sep (cur @ [c]) cs)"

definition split :: "char \<Rightarrow> string \<Rightarrow> string list" where
  "split sep s = split_acc sep [] s"

text \<open>
  Reading a file opened with \<open>open(path, 'r')\<close>: in text mode every \<open>\r\n\<close> and every
  other \<open>\r\<close> of the file arrives as \<open>\n\<close>.
\<close>

fun universal_newlines :: "string \<Rightarrow> string" where
  "universal_newlines [] = []"
| "universal_newlines (c # cs) =
     (if c = CHR 0x0D then
        (case cs of
           [] \<Rightarrow> [CHR 0x0A]
         | d # ds \<Rightarrow>
             if d = CHR 0x0A then CHR 0x0A # universal_newlines ds
             else CHR 0x0A # universal_newlines cs)
      else c # universal_newlines cs)"

text \<open>
  \<open>f.readlines()\<close> on the content of a file: after the translation of newlines the
  text is cut after every newline, each line keeps its newline, and a last line
  without one is kept as it is. \<open>f.writelines(lines)\<close> writes \<open>concat lines\<close>; on a
  POSIX system a \<open>\n\<close> is written as it is.
\<close>

fun readlines_acc :: "string \<Rightarrow> string \<Rightarrow> string list" where
  "readlines_acc cur [] = (if cur = [] then [] else [cur])"
| "readlines_acc cur (c # cs) =
     (if c = CHR 0x0A then (cur @ [c]) # readlines_acc [] cs
      else readlines_acc (cur @ [c]) cs)"

definition readlines :: "string \<Rightarrow> string list" where
  "readlines content = readlines_acc [] (universal_newlines content)"

text \<open>The slice \<open>xs[a:b]\<close> for \<open>0 \<le> a\<close> and \<open>0 \<le> b\<close>.\<close>

definition slice :: "'a list \<Rightarrow> int \<Rightarrow> int \<Rightarrow> 'a list" where
  "slice xs a b = take (nat (b - a)) (drop (nat a) xs)"

section \<open>Exceptions and decoded JSON values\<close>

text \<open>The exceptions of Python that the modelled code can let escape.\<close>

datatype error =
  TypeError | AttributeError | ValueError | KeyError | SameFileError | FileNotFoundError

text \<open>
  The values \<open>json.loads\<close> and \<open>response.json()\<close> return. A dictionary is the list of
  its items, looked up with \<open>map_of\<close>. A JSON number with a fraction is not
  represented: in everything this code does with a value (truth test, \<open>in\<close>,
  subscript, \<open>.rstrip\<close>) a \<open>float\<close> behaves as the \<open>int\<close> that is zero exactly when
  it is.
\<close>

datatype pyval =
    PyNone
  | PyBool bool
  | PyInt int
  | PyStr string
  | PyList "pyval list"
  | PyDict "(string \<times> pyval) list"

text \<open>The truth value Python gives a value in \<open>if fix_data and ...\<close>.\<close>

fun truthy :: "pyval \<Rightarrow> bool" where
  "truthy PyNone = False"
| "truthy (PyBool b) = b"
| "truthy (PyInt n) = (n \<noteq> 0)"
| "truthy (PyStr s) = (s \<noteq> [])"
| "truthy (PyList xs) = (xs \<noteq> [])"
| "truthy (PyDict kvs) = (kvs \<noteq> [])"

text \<open>\<open>key in container\<close> for a string key; numbers, booleans and None are not iterable.\<close>

fun contains :: "string \<Rightarrow> pyval \<Rightarrow> error + bool" where
  "contains key (PyDict kvs) = Inr (map_of kvs key \<noteq> None)"
| "contains key (PyList xs) = Inr (PyStr key \<in> set xs)"
| "contains key (PyStr s) = Inr (is_substring key s)"
| "contains key _ = Inl TypeError"

text \<open>
  \<open>container[key]\<close> for a string key, reached only after \<open>key in container\<close> held: a
  list or a string cannot be indexed by a string.
\<close>

fun subscript :: "pyval \<Rightarrow> string \<Rightarrow> error + pyval" where
  "subscript (PyDict kvs) key =
     (case map_of kvs key of None \<Rightarrow> Inl KeyError | Some v \<Rightarrow> Inr v)"
| "subscript _ key = Inl TypeError"

text \<open>\<open>value.rstrip()\<close>: only a string has the method.\<close>

fun py_rstrip :: "pyval \<Rightarrow> error + string" where
  "py_rstrip (PyStr s) = Inr (rstrip s)"
| "py_rstrip _ = Inl AttributeError"

section \<open>Findings\<close>

text \<open>
  The dataclass \<open>Vulnerability\<close> of \<open>fix.py\<close>. Python's \<open>int\<close> is unbounded, so
  \<open>line\<close> is an \<open>int\<close>: the cppcheck normaliser passes whatever \<open>int()\<close> parsed,
  which may be zero or negative.
\<close>

record Vulnerability =
  tool :: string
  file_path :: string
  line :: int
  message :: string
  severity :: string
  column :: "int option"

section \<open>Normalising scanner reports: \<open>StaticAnalyzer\<close>\<close>

text \<open>
  \<open>int(s)\<close> on a string: surrounding whitespace is dropped, one sign is allowed, and
  the rest must be decimal digits, with single underscores allowed between digits.
  \<open>None\<close> stands for the \<open>ValueError\<close> of Python. (A limit on the number of digits,
  which some versions of the interpreter impose, is not modelled.)
\<close>

definition is_decimal :: "char \<Rightarrow> bool" where
  "is_decimal c \<longleftrightarrow> c \<in> set ''0123456789''"

definition digit_value :: "char \<Rightarrow> nat" where
  "digit_value c = of_char c - 48"

fun int_digits :: "bool \<Rightarrow> nat \<Rightarrow> string \<Rightarrow> nat option" where
  "int_digits after_digit acc [] = (if after_digit then Some acc else None)"
| "int_digits after_digit acc (c # cs) =
     (if is_decimal c then int_digits True (10 * acc + digit_value c) cs
      else if c = CHR ''_'' \<and> after_digit \<and> cs \<noteq> [] then int_digits False acc cs
      else None)"

definition py_int :: "string \<Rightarrow> int option" where
  "py_int s =
     (case strip s of
        [] \<Rightarrow> None
      | c # cs \<Rightarrow>
          if c = CHR ''-'' then map_option (\<lambda>n. - int n) (int_digits False 0 cs)
          else if c = CHR ''+'' then map_option int (int_digits False 0 cs)
          else map_option int (int_digits False 0 (c # cs)))"

text \<open>
  \<open>s.isdigit()\<close>: the string is not empty and every character is a digit. Below 256
  the digits of \<open>str.isdigit\<close> are the ten decimal digits and the superscripts
  U+00B2, U+00B3 and U+00B9.
\<close>

definition isdigit_char :: "char \<Rightarrow> bool" where
  "isdigit_char c \<longleftrightarrow> is_decimal c \<or> c \<in> set [CHR 0xB2, CHR 0xB3, CHR 0xB9]"

definition isdigit :: "string \<Rightarrow> bool" where
  "isdigit s \<longleftrightarrow> s \<noteq> [] \<and> list_all isdigit_char s"

text \<open>
  An element of the tree \<open>ET.parse\<close> returns: tag, attributes, children. The parser
  itself is the library's; the normaliser is given its outcome, \<open>None\<close> for
  \<open>ET.ParseError\<close>.
\<close>

datatype xml = Element (xml_tag: string) (attrib: "(string \<times> string) list") (children: "xml list")

text \<open>\<open>root.iter(tag)\<close>: the element itself and all its descendants, in document order.\<close>

fun iter :: "string \<Rightarrow> xml \<Rightarrow> xml list" where
  "iter t (Element tg a cs) =
     (if tg = t then [Element tg a cs] else []) @ concat (map (iter t) cs)"

text \<open>\<open>element.find(tag)\<close>: the first child with that tag.\<close>

definition find_child :: "string \<Rightarrow> xml \<Rightarrow> xml option" where
  "find_child t e = List.find (\<lambda>c. xml_tag c = t) (children e)"

definition get_attr :: "xml \<Rightarrow> string \<Rightarrow> string option" where
  "get_attr e k = map_of (attrib e) k"

text \<open>
  The loop of \<open>_run_cppcheck\<close> over \<open>root.iter("error")\<close>, with the list \<open>vulns\<close> it
  appends to. \<open>resolve\<close> stands for \<open>str(Path(p).resolve())\<close>, which depends on the
  file system. \<open>location.get("line", 0)\<close> is the integer 0 when the attribute is
  missing and a string otherwise, and \<open>int\<close> of a string that is not a number raises
  \<open>ValueError\<close>, which the \<open>except ET.ParseError\<close> around the loop does not catch.
\<close>

fun cppcheck_errors ::
  "(string \<Rightarrow> string) \<Rightarrow> xml list \<Rightarrow> Vulnerability list \<Rightarrow> error + Vulnerability list" where
  "cppcheck_errors resolve [] vulns = Inr vulns"
| "cppcheck_errors resolve (err # rest) vulns =
     (case find_child ''location'' err of
        None \<Rightarrow> cppcheck_errors resolve rest vulns
      | Some location \<Rightarrow>
          (case get_attr location ''file'' of
             None \<Rightarrow> cppcheck_errors resolve rest vulns
           | Some fp \<Rightarrow>
               if fp = [] then cppcheck_errors resolve rest vulns
               else
                 (case (case get_attr location ''line'' of
                          None \<Rightarrow> Some 0
                        | Some s \<Rightarrow> py_int s) of
                    None \<Rightarrow> Inl ValueError
                  | Some n \<Rightarrow>
                      cppcheck_errors resolve rest
                        (vulns @
                         [\<lparr>tool = ''cppcheck'',
                           file_path = resolve fp,
                           line = n,
                           message = (case get_attr err ''msg'' of None \<Rightarrow> [] | Some m \<Rightarrow> m),
                           severity =
                             (case get_attr err ''severity'' of None \<Rightarrow> ''info'' | Some sv \<Rightarrow> sv),
                           column = None\<rparr>]))))"

definition run_cppcheck :: "(string \<Rightarrow> string) \<Rightarrow> xml option \<Rightarrow> error + Vulnerability list" where
  "run_cppcheck resolve parsed =
     (case parsed of
        None \<Rightarrow> Inr []
      | Some root \<Rightarrow> cppcheck_errors resolve (iter ''error'' root) [])"

text \<open>
  The loop of \<open>_run_flawfinder\<close> over the rows after the header. The line field goes
  through \<open>int\<close> only when \<open>isdigit\<close> holds and is 0 otherwise.
\<close>

fun flawfinder_rows ::
  "(string \<Rightarrow> string) \<Rightarrow> string list \<Rightarrow> Vulnerability list \<Rightarrow> error + Vulnerability list" where
  "flawfinder_rows resolve [] vulns = Inr vulns"
| "flawfinder_rows resolve (row # rest) vulns =
     (let parts = split CHR '','' (strip row) in
      if length parts \<ge> 7 then
        (case (if isdigit (parts ! 1) then py_int (parts ! 1) else Some 0) of
           None \<Rightarrow> Inl ValueError
         | Some n \<Rightarrow>
             flawfinder_rows resolve rest
               (vulns @
                [\<lparr>tool = ''flawfinder'',
                  file_path = resolve (parts ! 0),
                  line = n,
                  message = parts ! 6,
                  severity = parts ! 3,
                  column = None\<rparr>]))
      else flawfinder_rows resolve rest vulns)"

text \<open>The report is \<open>None\<close> when \<open>csv_path.exists()\<close> is false.\<close>

definition run_flawfinder :: "(string \<Rightarrow> string) \<Rightarrow> string option \<Rightarrow> error + Vulnerability list" where
  "run_flawfinder resolve csv =
     (case csv of
        None \<Rightarrow> Inr []
      | Some content \<Rightarrow> flawfinder_rows resolve (drop 1 (readlines content)) [])"

section \<open>Grouping: \<open>AIHealer._group_vulnerabilities\<close>\<close>

text \<open>
  The \<open>for vuln in sorted_vulns[1:]\<close> loop, with its two mutable locals \<open>groups\<close> and
  \<open>current_group\<close> passed as arguments and returned at the end. \<open>current_group[-1]\<close> is
  \<open>last current_group\<close>; the list is never empty there (lemma
  \<open>group_loop_current_nonempty\<close>), so the \<open>IndexError\<close> of Python cannot occur.
\<close>

fun group_loop ::
  "Vulnerability list \<Rightarrow> Vulnerability list list \<Rightarrow> Vulnerability list
     \<Rightarrow> Vulnerability list list \<times> Vulnerability list" where
  "group_loop [] groups current_group = (groups, current_group)"
| "group_loop (vuln # rest) groups current_group =
     (if line vuln - line (last current_group) \<le> 3
      then group_loop rest groups (current_group @ [vuln])
      else group_loop rest (groups @ [current_group]) [vuln])"

text \<open>
  \<open>sorted(vulnerabilities, key=lambda x: x.line)\<close> is a stable sort; \<open>sort_key\<close> is the
  stable sort of the library (\<open>sort_key_stable\<close>), and the stable sort of a list by a
  key is unique.
\<close>

definition group_vulnerabilities :: "Vulnerability list \<Rightarrow> Vulnerability list list" where
  "group_vulnerabilities vulnerabilities =
     (if vulnerabilities = [] then []
      else
        let sorted_vulns = sort_key line vulnerabilities;
            (groups, current_group) = group_loop (tl sorted_vulns) [] [hd sorted_vulns]
        in if current_group \<noteq> [] then groups @ [current_group] else groups)"

text \<open>Consecutive members of a unit are at most 3 lines apart.\<close>

fun within3 :: "Vulnerability list \<Rightarrow> bool" where
  "within3 (a # b # rest) = (line b - line a \<le> 3 \<and> within3 (b # rest))"
| "within3 _ = True"

text \<open>
  A new unit was started only where the gap to the last member of the unit before it
  exceeds 3.
\<close>

fun separated :: "Vulnerability list list \<Rightarrow> bool" where
  "separated (g # h # rest) = (line (hd h) - line (last g) > 3 \<and> separated (h # rest))"
| "separated _ = True"

section \<open>The fix service: \<open>AIHealer._query_llm_for_fix\<close>\<close>

text \<open>
  What \<open>requests.post\<close> came back with: an exception of the transport, or a response
  with its status code and the outcome of \<open>response.json()\<close> (\<open>None\<close> when the body is
  not JSON).
\<close>

datatype http_outcome = TransportException | Response nat "pyval option"

text \<open>
  The service is a parameter: it answers the request built from the target line, the
  context and the finding. Within one run no two requests carry the same finding (the
  units of a file have different primary lines, and each file is processed once), so
  a function of the request can give every sequence of answers. \<open>json_loads\<close> is
  \<open>json.loads\<close> on a string, \<open>None\<close> for \<open>JSONDecodeError\<close>.

  \<open>raise_for_status\<close> raises for the codes 400 to 599. \<open>.get\<close> exists on a dictionary
  only, and \<open>json.loads\<close> takes a string only; every exception ends in the
  \<open>except Exception\<close> branch, which returns \<open>None\<close>.
\<close>

definition query_llm_for_fix ::
  "(string \<Rightarrow> pyval option) \<Rightarrow> (string \<Rightarrow> string \<Rightarrow> Vulnerability \<Rightarrow> http_outcome)
     \<Rightarrow> string \<Rightarrow> string \<Rightarrow> Vulnerability \<Rightarrow> pyval" where
  "query_llm_for_fix json_loads service original_line code_context issue =
     (case service original_line code_context issue of
        TransportException \<Rightarrow> PyNone
      | Response status body \<Rightarrow>
          if 400 \<le> status \<and> status < 600 then PyNone
          else
            (case body of
               None \<Rightarrow> PyNone
             | Some (PyDict response_json) \<Rightarrow>
                 (case (case map_of response_json ''response'' of
                          None \<Rightarrow> PyStr ''{}''
                        | Some v \<Rightarrow> v) of
                    PyStr s \<Rightarrow> (case json_loads s of None \<Rightarrow> PyNone | Some v \<Rightarrow> v)
                  | _ \<Rightarrow> PyNone)
             | Some _ \<Rightarrow> PyNone))"

section \<open>Patching one file: \<open>AIHealer.fix_file\<close>\<close>

text \<open>\<open>_get_indentation\<close>.\<close>

definition get_indentation :: "string \<Rightarrow> string" where
  "get_indentation line_text =
     (let stripped = lstrip line_text in
      if stripped = [] \<or> stripped = [CHR 0x0A] then line_text
      else take (length line_text - length stripped) line_text)"

text \<open>
  The variable \<open>code_context\<close>: the lines from \<open>max(0, line_idx - 2)\<close> up to, but
  excluding, \<open>min(len(modified_lines), line_idx + 3)\<close>, joined.
\<close>

definition code_context :: "string list \<Rightarrow> int \<Rightarrow> string" where
  "code_context modified_lines line_idx =
     (let context_start = max 0 (line_idx - 2);
          context_end = min (int (length modified_lines)) (line_idx + 3)
      in concat (slice modified_lines context_start context_end))"

text \<open>
  The body of the \<open>for vuln_group in grouped_vulns\<close> loop, on the state
  \<open>(modified_lines, fixed_count)\<close>. Console output is not modelled. An exception
  raised in the body is not caught anywhere in \<open>fix.py\<close>: it ends the run.
\<close>

definition process_unit ::
  "(string \<Rightarrow> pyval option) \<Rightarrow> (string \<Rightarrow> string \<Rightarrow> Vulnerability \<Rightarrow> http_outcome)
     \<Rightarrow> string list \<times> nat \<Rightarrow> Vulnerability list \<Rightarrow> error + string list \<times> nat" where
  "process_unit json_loads service state vuln_group =
     (case state of (modified_lines, fixed_count) \<Rightarrow>
      (case vuln_group of
         [] \<Rightarrow> Inr (modified_lines, fixed_count)
       | primary_vuln # _ \<Rightarrow>
           let line_idx = line primary_vuln - 1 in
           if 0 \<le> line_idx \<and> line_idx < int (length modified_lines) then
             let original_line = modified_lines ! nat line_idx;
                 indentation = get_indentation original_line;
                 fix_data =
                   query_llm_for_fix json_loads service original_line
                     (code_context modified_lines line_idx) primary_vuln
             in
               if truthy fix_data then
                 (case contains ''fixed_line'' fix_data of
                    Inl e \<Rightarrow> Inl e
                  | Inr False \<Rightarrow> Inr (modified_lines, fixed_count)
                  | Inr True \<Rightarrow>
                      (case subscript fix_data ''fixed_line'' of
                         Inl e \<Rightarrow> Inl e
                       | Inr v \<Rightarrow>
                           (case py_rstrip v of
                              Inl e \<Rightarrow> Inl e
                            | Inr fixed_content \<Rightarrow>
                                let fixed_line = indentation @ fixed_content @ [CHR 0x0A] in
                                if fixed_line \<noteq> original_line \<and> length (strip fixed_content) > 0
                                then Inr (modified_lines[nat line_idx := fixed_line],
                                          fixed_count + 1)
                                else Inr (modified_lines, fixed_count))))
               else Inr (modified_lines, fixed_count)
           else Inr (modified_lines, fixed_count)))"

fun process_units ::
  "(string \<Rightarrow> pyval option) \<Rightarrow> (string \<Rightarrow> string \<Rightarrow> Vulnerability \<Rightarrow> http_outcome)
     \<Rightarrow> Vulnerability list list \<Rightarrow> string list \<times> nat \<Rightarrow> error + string list \<times> nat" where
  "process_units json_loads service [] state = Inr state"
| "process_units json_loads service (vuln_group # rest) state =
     (case process_unit json_loads service state vuln_group of
        Inl e \<Rightarrow> Inl e
      | Inr state' \<Rightarrow> process_units json_loads service rest state')"

text \<open>
  The file system: the content of every regular file, by its path. Paths are the
  canonical absolute paths the normalisers produce with \<open>resolve()\<close>, on which
  \<open>Path(p)\<close> keeps the string. Encodings, permissions and file metadata are outside
  the model.
\<close>

type_synonym filesystem = "string \<rightharpoonup> string"

text \<open>
  \<open>Path(p).name\<close>, the part after the last slash, and \<open>Path(p).suffix\<close>: the part of
  the name from its last dot on, when that dot is neither the first nor the last
  character of the name (\<open>i = name.rfind('.')\<close>, \<open>0 < i < len(name) - 1\<close>).
\<close>

definition path_name :: "string \<Rightarrow> string" where
  "path_name p = rev (takeWhile (\<lambda>c. c \<noteq> CHR ''/'') (rev p))"

definition suffix :: "string \<Rightarrow> string" where
  "suffix p =
     (let name = path_name p;
          after_dot = takeWhile (\<lambda>c. c \<noteq> CHR ''.'') (rev name)
      in if CHR ''.'' \<in> set name \<and> 0 < length after_dot
            \<and> length after_dot + 1 < length name
         then drop (length name - length after_dot - 1) name
         else [])"

text \<open>
  \<open>Path(p).with_suffix(s)\<close> for a well-formed \<open>s\<close>: a path with an empty name raises
  \<open>ValueError\<close>; otherwise the old suffix, if any, is cut off and \<open>s\<close> is appended.
\<close>

definition with_suffix :: "string \<Rightarrow> string \<Rightarrow> error + string" where
  "with_suffix p s =
     (if path_name p = [] then Inl ValueError
      else Inr (take (length p - length (suffix p)) p @ s))"

definition backup_path :: "string \<Rightarrow> error + string" where
  "backup_path p = with_suffix p ''.bak''"

text \<open>
  \<open>shutil.copy2(src, dst)\<close>: \<open>SameFileError\<close> when source and destination are the same
  file, otherwise the destination gets the source's content, replacing what was
  there.
\<close>

definition copy2 :: "filesystem \<Rightarrow> string \<Rightarrow> string \<Rightarrow> error + filesystem" where
  "copy2 fs src dst =
     (if src = dst then Inl SameFileError
      else case fs src of
             None \<Rightarrow> Inl FileNotFoundError
           | Some content \<Rightarrow> Inr (fs(dst \<mapsto> content)))"

text \<open>
  \<open>fix_file\<close>. A missing file is reported and the function returns. After the loop the
  file is backed up and rewritten when \<open>fixed_count > 0\<close>, and untouched otherwise.
\<close>

definition fix_file ::
  "(string \<Rightarrow> pyval option) \<Rightarrow> (string \<Rightarrow> string \<Rightarrow> Vulnerability \<Rightarrow> http_outcome)
     \<Rightarrow> string \<Rightarrow> Vulnerability list \<Rightarrow> filesystem \<Rightarrow> error + filesystem" where
  "fix_file json_loads service path vulnerabilities fs =
     (case fs path of
        None \<Rightarrow> Inr fs
      | Some content \<Rightarrow>
          (case process_units json_loads service (group_vulnerabilities vulnerabilities)
                  (readlines content, 0) of
             Inl e \<Rightarrow> Inl e
           | Inr (modified_lines, fixed_count) \<Rightarrow>
               if fixed_count > 0 then
                 (case backup_path path of
                    Inl e \<Rightarrow> Inl e
                  | Inr bak \<Rightarrow>
                      (case copy2 fs path bak of
                         Inl e \<Rightarrow> Inl e
                       | Inr fs' \<Rightarrow> Inr (fs'(path \<mapsto> concat modified_lines))))
               else Inr fs))"

section \<open>The loop over files in \<open>main\<close>\<close>

text \<open>
  \<open>files_with_issues\<close>: a dictionary from file path to the findings of that file, in
  the order the paths first occur; it is the list of its items here.
\<close>

definition add_issue ::
  "(string \<times> Vulnerability list) list \<Rightarrow> Vulnerability \<Rightarrow> (string \<times> Vulnerability list) list" where
  "add_issue files issue =
     (if map_of files (file_path issue) = None then files @ [(file_path issue, [issue])]
      else map (\<lambda>(p, issues). if p = file_path issue then (p, issues @ [issue])
                                else (p, issues)) files)"

definition files_with_issues :: "Vulnerability list \<Rightarrow> (string \<times> Vulnerability list) list" where
  "files_with_issues all_issues = foldl add_issue [] all_issues"

text \<open>\<open>for file_path, issues in files_with_issues.items()\<close>, with the existence test.\<close>

fun process_files ::
  "(string \<Rightarrow> pyval option) \<Rightarrow> (string \<Rightarrow> string \<Rightarrow> Vulnerability \<Rightarrow> http_outcome)
     \<Rightarrow> (string \<times> Vulnerability list) list \<Rightarrow> filesystem \<Rightarrow> error + filesystem" where
  "process_files json_loads service [] fs = Inr fs"
| "process_files json_loads service ((path, issues) # rest) fs =
     (if fs path \<noteq> None then
        (case fix_file json_loads service path issues fs of
           Inl e \<Rightarrow> Inl e
         | Inr fs' \<Rightarrow> process_files json_loads service rest fs')
      else process_files json_loads service rest fs)"

text \<open>Two runs of \<open>fix_file\<close> on the same file with the same findings, one after the other.\<close>

definition fix_file_twice ::
  "(string \<Rightarrow> pyval option) \<Rightarrow> (string \<Rightarrow> string \<Rightarrow> Vulnerability \<Rightarrow> http_outcome)
     \<Rightarrow> string \<Rightarrow> Vulnerability list \<Rightarrow> filesystem \<Rightarrow> error + filesystem" where
  "fix_file_twice json_loads service path vulnerabilities fs =
     (case fix_file json_loads service path vulnerabilities fs of
        Inl e \<Rightarrow> Inl e
      | Inr fs' \<Rightarrow> fix_file json_loads service path vulnerabilities fs')"

section \<open>Notions used in the properties\<close>

text \<open>
  What the loop body decides for one target line, as a function of the answer
  \<open>fix_data\<close> and the line: an exception, no change, or the replacement line. Lemma
  \<open>process_unit_decision\<close> shows that \<open>process_unit\<close> does exactly this.
\<close>

definition unit_decision :: "pyval \<Rightarrow> string \<Rightarrow> error + string option" where
  "unit_decision fix_data original_line =
     (if truthy fix_data then
        (case contains ''fixed_line'' fix_data of
           Inl e \<Rightarrow> Inl e
         | Inr False \<Rightarrow> Inr None
         | Inr True \<Rightarrow>
             (case subscript fix_data ''fixed_line'' of
                Inl e \<Rightarrow> Inl e
              | Inr v \<Rightarrow>
                  (case py_rstrip v of
                     Inl e \<Rightarrow> Inl e
                   | Inr fixed_content \<Rightarrow>
                       let fixed_line =
                             get_indentation original_line @ fixed_content @ [CHR 0x0A]
                       in if fixed_line \<noteq> original_line \<and> length (strip fixed_content) > 0
                          then Inr (Some fixed_line)
                          else Inr None)))
      else Inr None)"


text \<open>
  An answer whose \<open>fixed_line\<close>, if it has one, carries no indentation of its own and
  is a single line: after \<open>rstrip\<close> it does not start with whitespace and contains
  neither \<open>\n\<close> nor \<open>\r\<close>.
\<close>

fun clean_proposal :: "pyval \<Rightarrow> bool" where
  "clean_proposal (PyDict kvs) =
     (case map_of kvs ''fixed_line'' of
        Some (PyStr s) \<Rightarrow>
          (rstrip s = [] \<or> \<not> isspace (hd s)) \<and>
          CHR 0x0A \<notin> set (rstrip s) \<and> CHR 0x0D \<notin> set (rstrip s)
      | _ \<Rightarrow> True)"
| "clean_proposal _ = True"

text \<open>A line that is empty or consists of whitespace only.\<close>

definition blank :: "string \<Rightarrow> bool" where
  "blank l \<longleftrightarrow> (\<forall>c \<in> set l. isspace c)"

text \<open>
  The shape of what \<open>readlines\<close> returns: no line is empty or holds a \<open>\r\<close>, a \<open>\n\<close>
  occurs only as the last character of a line, and every line but the last ends with
  one.
\<close>

definition proper_lines :: "string list \<Rightarrow> bool" where
  "proper_lines ls \<longleftrightarrow>
     list_all (\<lambda>l. l \<noteq> [] \<and> CHR 0x0A \<notin> set (butlast l) \<and> CHR 0x0D \<notin> set l) ls \<and>
     list_all (\<lambda>l. last l = CHR 0x0A) (butlast ls)"

section \<open>Example data\<close>

text \<open>A finding of cppcheck in the given file at the given line.\<close>

definition finding_in :: "string \<Rightarrow> int \<Rightarrow> Vulnerability" where
  "finding_in p n =
     \<lparr>tool = ''cppcheck'', file_path = p, line = n,
      message = ''Obsolete function gets called'', severity = ''warning'', column = None\<rparr>"

definition finding_at :: "int \<Rightarrow> Vulnerability" where
  "finding_at n = finding_in ''/src/checked/a.c'' n"

text \<open>
  A service that answers every request with status 200 and an envelope whose
  \<open>response\<close> string is the given text, and a decoder that knows four texts: one
  with a \<open>fixed_line\<close> free of indentation, one with an indented \<open>fixed_line\<close>, one
  that is a list, and one whose \<open>fixed_line\<close> is \<open>null\<close>.
\<close>

definition answering :: "string \<Rightarrow> string \<Rightarrow> string \<Rightarrow> Vulnerability \<Rightarrow> http_outcome" where
  "answering text original_line context issue =
     Response 200 (Some (PyDict [(''response'', PyStr text)]))"

definition example_loads :: "string \<Rightarrow> pyval option" where
  "example_loads s =
     (if s = ''plain'' then
        Some (PyDict [(''reason'', PyStr ''bounded read''),
                      (''fixed_line'', PyStr ''fgets(buf, 64, stdin);  '')])
      else if s = ''indented'' then
        Some (PyDict [(''reason'', PyStr ''bounded read''),
                      (''fixed_line'', PyStr ''  fgets(buf, 64, stdin);'')])
      else if s = ''list'' then Some (PyList [PyStr ''fixed_line''])
      else if s = ''null'' then
        Some (PyDict [(''reason'', PyStr ''nothing to fix''), (''fixed_line'', PyNone)])
      else None)"

text \<open>A service that cannot be reached, and a file system that holds one C file.\<close>

definition unreachable :: "string \<Rightarrow> string \<Rightarrow> Vulnerability \<Rightarrow> http_outcome" where
  "unreachable original_line context issue = TransportException"

definition example_fs :: filesystem where
  "example_fs = [''/src/checked/a.c'' \<mapsto> ''int main() {\<newline>    gets(buf);\<newline>}\<newline>'']"

text \<open>A source file and a header that differ in their extension only.\<close>

definition pair_fs :: filesystem where
  "pair_fs = [''/src/checked/foo.c'' \<mapsto> ''gets(a);\<newline>'',
              ''/src/checked/foo.h'' \<mapsto> ''gets(b);\<newline>'']"

text \<open>A file that already has the extension of the backups.\<close>

definition bak_fs :: filesystem where
  "bak_fs = [''/src/checked/x.bak'' \<mapsto> ''gets(a);\<newline>'']"

text \<open>
  A cppcheck report with one error whose location has the given attributes, and a
  flawfinder report with one row whose line field is the given text.
\<close>

definition cppcheck_report :: "(string \<times> string) list \<Rightarrow> xml" where
  "cppcheck_report location_attrib =
     Element ''results'' [(''version'', ''2'')]
       [Element ''cppcheck'' [(''version'', ''2.13'')] [],
        Element ''errors'' []
          [Element ''error''
             [(''id'', ''getsCalled''), (''severity'', ''warning''),
              (''msg'', ''Obsolete function gets called'')]
             [Element ''location'' location_attrib []]]]"

definition flawfinder_report :: "string \<Rightarrow> string" where
  "flawfinder_report line_field =
     ''File,Line,Column,Level,Category,Name,Warning\<newline>'' @
     ''a.c,'' @ line_field @ '',5,5,buffer,gets,Does not check for buffer overflows\<newline>''"

text \<open>The example file system after the \<open>gets\<close> call of \<open>a.c\<close> was fixed.\<close>

definition fixed_fs :: filesystem where
  "fixed_fs =
     example_fs(''/src/checked/a.bak'' \<mapsto> ''int main() {\<newline>    gets(buf);\<newline>}\<newline>'',
                ''/src/checked/a.c'' \<mapsto> ''int main() {\<newline>    fgets(buf, 64, stdin);\<newline>}\<newline>'')"

section \<open>Properties\<close>

subsection \<open>Grouping\<close>

lemma group_loop_concat:
  "group_loop rest groups cur = (gs, c) \<Longrightarrow> concat gs @ c = concat groups @ cur @ rest"
  by (induction rest arbitrary: groups cur) (auto split: if_splits)

lemma group_loop_current_nonempty:
  "cur \<noteq> [] \<Longrightarrow> group_loop rest groups cur = (gs, c) \<Longrightarrow> c \<noteq> []"
  by (induction rest arbitrary: groups cur) (auto split: if_splits)

lemma group_loop_nonempty:
  "cur \<noteq> [] \<Longrightarrow> [] \<notin> set groups \<Longrightarrow> group_loop rest groups cur = (gs, c)
     \<Longrightarrow> [] \<notin> set gs"
proof (induction rest arbitrary: groups cur)
  case Nil
  then show ?case by simp
next
  case (Cons v rest)
  show ?case
  proof (cases "line v - line (last cur) \<le> 3")
    case True
    with Cons.prems have "group_loop rest groups (cur @ [v]) = (gs, c)" by simp
    from Cons.IH [OF _ Cons.prems(2) this] show ?thesis by simp
  next
    case False
    with Cons.prems have run: "group_loop rest (groups @ [cur]) [v] = (gs, c)" by simp
    from Cons.prems(1,2) have "[] \<notin> set (groups @ [cur])" by simp
    from Cons.IH [OF _ this run] show ?thesis by simp
  qed
qed

lemma within3_snoc:
  "within3 (xs @ [v]) \<longleftrightarrow> within3 xs \<and> (xs = [] \<or> line v - line (last xs) \<le> 3)"
  by (induction xs rule: within3.induct) auto

lemma group_loop_within3:
  "cur \<noteq> [] \<Longrightarrow> within3 cur \<Longrightarrow> \<forall>g \<in> set groups. within3 g
     \<Longrightarrow> group_loop rest groups cur = (gs, c)
     \<Longrightarrow> within3 c \<and> (\<forall>g \<in> set gs. within3 g)"
proof (induction rest arbitrary: groups cur)
  case Nil
  then show ?case by simp
next
  case (Cons v rest)
  show ?case
  proof (cases "line v - line (last cur) \<le> 3")
    case True
    with Cons.prems have run: "group_loop rest groups (cur @ [v]) = (gs, c)" by simp
    from True Cons.prems(2) have "within3 (cur @ [v])" by (simp add: within3_snoc)
    from Cons.IH [OF _ this Cons.prems(3) run] show ?thesis by simp
  next
    case False
    with Cons.prems have run: "group_loop rest (groups @ [cur]) [v] = (gs, c)" by simp
    from Cons.prems(2,3) have "\<forall>g \<in> set (groups @ [cur]). within3 g" by simp
    from Cons.IH [OF _ _ this run] show ?thesis by simp
  qed
qed

lemma separated_snoc:
  "separated (gs @ [g]) \<longleftrightarrow>
     separated gs \<and> (gs = [] \<or> line (hd g) - line (last (last gs)) > 3)"
  by (induction gs rule: separated.induct) auto

lemma separated_snoc_grow:
  "cur \<noteq> [] \<Longrightarrow> separated (gs @ [cur]) \<Longrightarrow> separated (gs @ [cur @ [v]])"
  by (simp add: separated_snoc)

lemma group_loop_separated:
  "cur \<noteq> [] \<Longrightarrow> separated (groups @ [cur]) \<Longrightarrow> [] \<notin> set groups
     \<Longrightarrow> group_loop rest groups cur = (gs, c)
     \<Longrightarrow> separated (gs @ [c])"
proof (induction rest arbitrary: groups cur)
  case Nil
  then show ?case by simp
next
  case (Cons v rest)
  show ?case
  proof (cases "line v - line (last cur) \<le> 3")
    case True
    with Cons.prems have run: "group_loop rest groups (cur @ [v]) = (gs, c)" by simp
    from Cons.prems(1,2) have "separated (groups @ [cur @ [v]])"
      by (rule separated_snoc_grow)
    with Cons.IH [OF _ _ Cons.prems(3) run] show ?thesis by simp
  next
    case False
    with Cons.prems have run: "group_loop rest (groups @ [cur]) [v] = (gs, c)" by simp
    from False Cons.prems(2) have sep: "separated ((groups @ [cur]) @ [[v]])"
      by (subst separated_snoc) simp
    from Cons.prems(1,3) have ne: "[] \<notin> set (groups @ [cur])" by simp
    from Cons.IH [OF _ sep ne run] show ?thesis by simp
  qed
qed

lemma sorted_concat_member:
  "sorted (map line (concat gs)) \<Longrightarrow> g \<in> set gs \<Longrightarrow> sorted (map line g)"
  by (induction gs) (auto simp: sorted_append)

text \<open>The result of the function, with the loop's final state named.\<close>

lemma group_vulnerabilities_unfold:
  assumes "vs \<noteq> []"
  obtains gs c where
    "group_loop (tl (sort_key line vs)) [] [hd (sort_key line vs)] = (gs, c)"
    "c \<noteq> []" "group_vulnerabilities vs = gs @ [c]"
proof -
  obtain gs c where
    run: "group_loop (tl (sort_key line vs)) [] [hd (sort_key line vs)] = (gs, c)"
    by (cases "group_loop (tl (sort_key line vs)) [] [hd (sort_key line vs)]") blast
  have ne: "c \<noteq> []"
    using group_loop_current_nonempty [OF _ run] by simp
  have "group_vulnerabilities vs = gs @ [c]"
    using assms run ne by (simp add: group_vulnerabilities_def Let_def)
  with run ne show thesis by (rule that)
qed

lemma sort_key_nonempty: "vs \<noteq> [] \<Longrightarrow> sort_key line vs \<noteq> []"
  by (metis length_sort length_0_conv)

lemma concat_group_vulnerabilities:
  "concat (group_vulnerabilities vs) = sort_key line vs"
proof (cases "vs = []")
  case True
  then show ?thesis by (simp add: group_vulnerabilities_def)
next
  case False
  then obtain gs c where
    run: "group_loop (tl (sort_key line vs)) [] [hd (sort_key line vs)] = (gs, c)"
    and res: "group_vulnerabilities vs = gs @ [c]"
    by (rule group_vulnerabilities_unfold)
  from group_loop_concat [OF run] sort_key_nonempty [OF False] res
  show ?thesis by simp
qed

lemma group_vulnerabilities_nonempty: "[] \<notin> set (group_vulnerabilities vs)"
proof (cases "vs = []")
  case True
  then show ?thesis by (simp add: group_vulnerabilities_def)
next
  case False
  then obtain gs c where
    run: "group_loop (tl (sort_key line vs)) [] [hd (sort_key line vs)] = (gs, c)"
    and ne: "c \<noteq> []" and res: "group_vulnerabilities vs = gs @ [c]"
    by (rule group_vulnerabilities_unfold)
  from group_loop_nonempty [OF _ _ run] have "[] \<notin> set gs" by simp
  with ne res show ?thesis by auto
qed

lemma group_vulnerabilities_within3:
  "g \<in> set (group_vulnerabilities vs) \<Longrightarrow> within3 g"
proof (cases "vs = []")
  case True
  assume "g \<in> set (group_vulnerabilities vs)"
  with True show ?thesis by (simp add: group_vulnerabilities_def)
next
  case False
  assume mem: "g \<in> set (group_vulnerabilities vs)"
  from False obtain gs c where
    run: "group_loop (tl (sort_key line vs)) [] [hd (sort_key line vs)] = (gs, c)"
    and res: "group_vulnerabilities vs = gs @ [c]"
    by (rule group_vulnerabilities_unfold)
  from group_loop_within3 [OF _ _ _ run] have "within3 c \<and> (\<forall>g \<in> set gs. within3 g)"
    by simp
  with mem res show ?thesis by auto
qed

lemma group_vulnerabilities_sorted:
  "g \<in> set (group_vulnerabilities vs) \<Longrightarrow> sorted (map line g)"
proof -
  assume mem: "g \<in> set (group_vulnerabilities vs)"
  have "sorted (map line (concat (group_vulnerabilities vs)))"
    by (simp add: concat_group_vulnerabilities)
  then show ?thesis using mem by (rule sorted_concat_member)
qed

lemma group_vulnerabilities_separated: "separated (group_vulnerabilities vs)"
proof (cases "vs = []")
  case True
  then show ?thesis by (simp add: group_vulnerabilities_def)
next
  case False
  then obtain gs c where
    run: "group_loop (tl (sort_key line vs)) [] [hd (sort_key line vs)] = (gs, c)"
    and res: "group_vulnerabilities vs = gs @ [c]"
    by (rule group_vulnerabilities_unfold)
  from group_loop_separated [OF _ _ _ run] res show ?thesis by simp
qed

lemma group_example:
  assumes "line a = 10" "line b = 12" "line c = 15" "line d = 30"
  shows "group_vulnerabilities [a, b, c, d] = [[a, b, c], [d]]"
  using assms by (simp add: group_vulnerabilities_def)


lemma finding_at_line [simp]: "line (finding_at n) = n"
  by (simp add: finding_at_def finding_in_def)

text \<open>
  C1. Grouping sorts the findings by line, stably, and cuts the sorted sequence exactly
  where a finding lies more than 3 lines after the last member of the current unit.
  The units concatenated are the stably sorted input (so they partition the input and
  findings on one line keep their input order); every unit is non-empty, sorted by
  line, with consecutive members at most 3 lines apart; consecutive units are more
  than 3 lines apart; the empty input gives no unit; findings at lines 10, 12, 15 and
  30 give the units of 10, 12, 15 and of 30.
\<close>

theorem group_vulnerabilities_correct:
  "group_vulnerabilities [] = [] \<and>
   concat (group_vulnerabilities vs) = sort_key line vs \<and>
   sorted (map line (concat (group_vulnerabilities vs))) \<and>
   (\<forall>k. filter (\<lambda>v. line v = k) (concat (group_vulnerabilities vs))
          = filter (\<lambda>v. line v = k) vs) \<and>
   mset (concat (group_vulnerabilities vs)) = mset vs \<and>
   (\<forall>g \<in> set (group_vulnerabilities vs). g \<noteq> [] \<and> sorted (map line g) \<and> within3 g) \<and>
   separated (group_vulnerabilities vs) \<and>
   (line a = 10 \<and> line b = 12 \<and> line c = 15 \<and> line d = 30
      \<longrightarrow> group_vulnerabilities [a, b, c, d] = [[a, b, c], [d]])"
proof -
  have empty: "group_vulnerabilities [] = []"
    by (simp add: group_vulnerabilities_def)
  have cat: "concat (group_vulnerabilities vs) = sort_key line vs"
    by (rule concat_group_vulnerabilities)
  have srt: "sorted (map line (concat (group_vulnerabilities vs)))"
    by (simp add: cat)
  have stable: "\<forall>k. filter (\<lambda>v. line v = k) (concat (group_vulnerabilities vs))
                    = filter (\<lambda>v. line v = k) vs"
    by (simp add: cat sort_key_stable)
  have part: "mset (concat (group_vulnerabilities vs)) = mset vs"
    by (simp add: cat)
  have units: "\<forall>g \<in> set (group_vulnerabilities vs).
                 g \<noteq> [] \<and> sorted (map line g) \<and> within3 g"
    using group_vulnerabilities_nonempty [of vs] group_vulnerabilities_sorted [of _ vs]
      group_vulnerabilities_within3 [of _ vs]
    by blast
  have sep: "separated (group_vulnerabilities vs)"
    by (rule group_vulnerabilities_separated)
  have ex: "line a = 10 \<and> line b = 12 \<and> line c = 15 \<and> line d = 30
              \<longrightarrow> group_vulnerabilities [a, b, c, d] = [[a, b, c], [d]]"
    by (simp add: group_example)
  from empty cat srt stable part units sep ex show ?thesis by blast
qed

theorem group_vulnerabilities_correct_witness:
  "[finding_at 10, finding_at 12, finding_at 15]
     \<in> set (group_vulnerabilities [finding_at 30, finding_at 12, finding_at 10, finding_at 15]) \<and>
   sorted (map line [finding_at 10, finding_at 12, finding_at 15]) \<and>
   within3 [finding_at 10, finding_at 12, finding_at 15] \<and>
   line (finding_at 10) = 10 \<and> line (finding_at 12) = 12 \<and>
   line (finding_at 15) = 15 \<and> line (finding_at 30) = 30 \<and>
   group_vulnerabilities [finding_at 10, finding_at 12, finding_at 15, finding_at 30]
     = [[finding_at 10, finding_at 12, finding_at 15], [finding_at 30]]"
proof -
  let ?vs = "[finding_at 30, finding_at 12, finding_at 10, finding_at 15]"
  let ?g = "[finding_at 10, finding_at 12, finding_at 15]"
  note all = group_vulnerabilities_correct
      [of ?vs "finding_at 10" "finding_at 12" "finding_at 15" "finding_at 30"]
  have mem: "?g \<in> set (group_vulnerabilities ?vs)"
    by (simp add: group_vulnerabilities_def finding_at_def finding_in_def)
  from all have "\<forall>g \<in> set (group_vulnerabilities ?vs).
                   g \<noteq> [] \<and> sorted (map line g) \<and> within3 g"
    by blast
  with mem have unit: "sorted (map line ?g) \<and> within3 ?g"
    by blast
  have lines: "line (finding_at 10) = 10 \<and> line (finding_at 12) = 12 \<and>
               line (finding_at 15) = 15 \<and> line (finding_at 30) = 30"
    by simp
  with all have
    "group_vulnerabilities [finding_at 10, finding_at 12, finding_at 15, finding_at 30]
       = [[finding_at 10, finding_at 12, finding_at 15], [finding_at 30]]"
    by blast
  with mem unit lines show ?thesis by blast
qed

subsection \<open>Whitespace and indentation\<close>

lemma lstrip_not_newline: "lstrip l \<noteq> [CHR 0x0A]"
proof
  assume "lstrip l = [CHR 0x0A]"
  then have "dropWhile isspace l = [CHR 0x0A]" by (simp add: lstrip_def)
  then have "\<not> isspace (CHR 0x0A)" by (metis hd_dropWhile list.sel(1) list.discI)
  then show False by (simp add: isspace_def)
qed

text \<open>\<open>_get_indentation\<close> returns the longest prefix of whitespace.\<close>

lemma get_indentation_takeWhile: "get_indentation l = takeWhile isspace l"
proof (cases "lstrip l = []")
  case True
  then have "\<forall>c \<in> set l. isspace c" by (simp add: lstrip_def dropWhile_eq_Nil_conv)
  then have tw: "takeWhile isspace l = l" by (simp add: takeWhile_eq_all_conv)
  from True have "get_indentation l = l" by (simp add: get_indentation_def)
  with tw show ?thesis by (simp only:)
next
  case False
  have "length l - length (dropWhile isspace l) = length (takeWhile isspace l)"
    by (metis add_diff_cancel_right' length_append takeWhile_dropWhile_id)
  then have "take (length l - length (dropWhile isspace l)) l = takeWhile isspace l"
    by (metis append_eq_conv_conj takeWhile_dropWhile_id)
  with False lstrip_not_newline [of l] show ?thesis
    by (auto simp: get_indentation_def lstrip_def Let_def)
qed


lemma rstrip_idem: "rstrip (rstrip s) = rstrip s"
  by (simp add: rstrip_def)

lemma strip_rstrip: "strip (rstrip s) = strip s"
  by (simp add: strip_def rstrip_idem)

lemma rstrip_last: "rstrip s \<noteq> [] \<Longrightarrow> \<not> isspace (last (rstrip s))"
proof -
  assume ne: "rstrip s \<noteq> []"
  then have "dropWhile isspace (rev s) \<noteq> []" by (simp add: rstrip_def)
  then have "\<not> isspace (hd (dropWhile isspace (rev s)))" by (rule hd_dropWhile)
  with ne show ?thesis by (simp add: rstrip_def last_rev)
qed


subsection \<open>One unit\<close>

lemma process_unit_empty: "process_unit json_loads service st [] = Inr st"
  by (cases st) (simp add: process_unit_def)

lemma process_unit_decision:
  "process_unit json_loads service (ls, k) (v # others) =
     (if 0 \<le> line v - 1 \<and> line v - 1 < int (length ls) then
        (case unit_decision
                (query_llm_for_fix json_loads service (ls ! nat (line v - 1))
                   (code_context ls (line v - 1)) v)
                (ls ! nat (line v - 1)) of
           Inl e \<Rightarrow> Inl e
         | Inr None \<Rightarrow> Inr (ls, k)
         | Inr (Some fixed_line) \<Rightarrow> Inr (ls[nat (line v - 1) := fixed_line], k + 1))
      else Inr (ls, k))"
  by (simp add: process_unit_def unit_decision_def Let_def
           split: sum.splits bool.splits)

lemma process_unit_out_of_range:
  assumes "\<not> (0 \<le> line v - 1 \<and> line v - 1 < int (length ls))"
  shows "process_unit json_loads service (ls, k) (v # others) = Inr (ls, k)"
  by (simp only: process_unit_decision if_not_P [OF assms])

lemma unit_decision_no_fix: "\<not> truthy fix_data \<Longrightarrow> unit_decision fix_data l = Inr None"
  by (simp add: unit_decision_def)

lemma process_unit_no_fix:
  assumes "\<And>ol ctx. \<not> truthy (query_llm_for_fix json_loads service ol ctx v)"
  shows "process_unit json_loads service st (v # others) = Inr st"
  using assms by (cases st) (simp add: process_unit_decision unit_decision_no_fix)

lemma unit_decision_fixed_line:
  assumes "map_of kvs ''fixed_line'' = Some (PyStr s)"
  shows "unit_decision (PyDict kvs) l =
           (if takeWhile isspace l @ rstrip s @ [CHR 0x0A] \<noteq> l \<and> strip s \<noteq> []
            then Inr (Some (takeWhile isspace l @ rstrip s @ [CHR 0x0A]))
            else Inr None)"
proof -
  from assms have "kvs \<noteq> []" by auto
  with assms show ?thesis
    by (simp add: unit_decision_def get_indentation_takeWhile strip_rstrip)
qed



subsection \<open>The fix service\<close>


subsection \<open>The loop over the units\<close>

lemma process_units_all_skipped:
  "(\<And>g st. g \<in> set gs \<Longrightarrow> process_unit json_loads service st g = Inr st)
     \<Longrightarrow> process_units json_loads service gs st = Inr st"
  by (induction gs) simp_all

lemma fix_file_unchanged:
  assumes "\<And>g st. g \<in> set (group_vulnerabilities vs)
             \<Longrightarrow> process_unit json_loads service st g = Inr st"
  shows "fix_file json_loads service path vs fs = Inr fs"
proof (cases "fs path")
  case None
  then show ?thesis by (simp add: fix_file_def)
next
  case (Some content)
  have "process_units json_loads service (group_vulnerabilities vs) (readlines content, 0)
          = Inr (readlines content, 0)"
    using assms by (rule process_units_all_skipped)
  with Some show ?thesis by (simp add: fix_file_def)
qed

lemma set_concat_group: "\<Union> (set ` set (group_vulnerabilities vs)) = set vs"
proof -
  have "set (concat (group_vulnerabilities vs)) = set vs"
    by (simp add: concat_group_vulnerabilities)
  then show ?thesis by simp
qed

lemma unit_member_of_input: "g \<in> set (group_vulnerabilities vs) \<Longrightarrow> v \<in> set g \<Longrightarrow> v \<in> set vs"
  using set_concat_group [of vs] by blast

lemma input_member_of_unit: "v \<in> set vs \<Longrightarrow> \<exists>g \<in> set (group_vulnerabilities vs). v \<in> set g"
  using set_concat_group [of vs] by blast

lemma sorted_hd_least: "sorted (map line g) \<Longrightarrow> v \<in> set g \<Longrightarrow> line (hd g) \<le> line v"
  by (cases g) auto

lemma process_unit_preserves:
  assumes "process_unit json_loads service (ls, k) g = Inr (ls', k')"
  shows "length ls' = length ls \<and> k \<le> k' \<and> (k' = k \<longrightarrow> ls' = ls) \<and>
         (\<forall>j. g = [] \<or> int j \<noteq> line (hd g) - 1 \<longrightarrow> ls' ! j = ls ! j)"
proof (cases g)
  case Nil
  with assms show ?thesis by (simp add: process_unit_empty)
next
  case (Cons v others)
  with assms show ?thesis
    by (auto simp: process_unit_decision split: if_splits sum.splits option.splits)
qed

lemma process_units_preserves:
  "process_units json_loads service gs (ls, k) = Inr (ls', k')
     \<Longrightarrow> length ls' = length ls \<and> k \<le> k' \<and> (k' = k \<longrightarrow> ls' = ls) \<and>
         (\<forall>j. (\<forall>g \<in> set gs. g = [] \<or> int j \<noteq> line (hd g) - 1) \<longrightarrow> ls' ! j = ls ! j)"
proof (induction gs arbitrary: ls k)
  case Nil
  then show ?case by simp
next
  case (Cons g gs)
  from Cons.prems obtain ls1 k1 where
    step: "process_unit json_loads service (ls, k) g = Inr (ls1, k1)"
    and run: "process_units json_loads service gs (ls1, k1) = Inr (ls', k')"
    by (auto split: sum.splits)
  note a = process_unit_preserves [OF step]
  note b = Cons.IH [OF run]
  from a b have "length ls' = length ls" by simp
  moreover from a b have "k \<le> k'" by simp
  moreover from a b have "k' = k \<longrightarrow> ls' = ls" by auto
  moreover have
    "\<forall>j. (\<forall>h \<in> set (g # gs). h = [] \<or> int j \<noteq> line (hd h) - 1) \<longrightarrow> ls' ! j = ls ! j"
  proof (intro allI impI)
    fix j
    assume out: "\<forall>h \<in> set (g # gs). h = [] \<or> int j \<noteq> line (hd h) - 1"
    then have "g = [] \<or> int j \<noteq> line (hd g) - 1" by simp
    with a have first: "ls1 ! j = ls ! j" by blast
    from out have "\<forall>h \<in> set gs. h = [] \<or> int j \<noteq> line (hd h) - 1" by simp
    with b have "ls' ! j = ls1 ! j" by blast
    with first show "ls' ! j = ls ! j" by simp
  qed
  ultimately show ?case by blast
qed

text \<open>
  C5. When the loop over the units ends with the counter at zero, and in particular
  when the proposer returns \<open>None\<close> for every request, \<open>fix_file\<close> returns the file
  system it was given: the file is as it was, and nothing was written at the backup
  path or anywhere else.
\<close>

theorem no_change_no_write:
  "(fs path = Some content \<and>
    process_units json_loads service (group_vulnerabilities vs) (readlines content, 0)
      = Inr (ml, 0)
      \<longrightarrow> fix_file json_loads service path vs fs = Inr fs) \<and>
   ((\<forall>ol ctx v. query_llm_for_fix json_loads service ol ctx v = PyNone)
      \<longrightarrow> fix_file json_loads service path vs fs = Inr fs)"
proof -
  have counter: "fix_file json_loads service path vs fs = Inr fs"
    if "fs path = Some content"
      and "process_units json_loads service (group_vulnerabilities vs) (readlines content, 0)
             = Inr (ml, 0)"
    using that by (simp add: fix_file_def)
  have none: "fix_file json_loads service path vs fs = Inr fs"
    if declined: "\<forall>ol ctx v. query_llm_for_fix json_loads service ol ctx v = PyNone"
  proof (rule fix_file_unchanged)
    fix g st
    show "process_unit json_loads service st g = Inr st"
    proof (cases g)
      case Nil
      then show ?thesis by (simp add: process_unit_empty)
    next
      case (Cons v others)
      from declined have "\<not> truthy (query_llm_for_fix json_loads service ol ctx v)" for ol ctx
        by simp
      then show ?thesis unfolding Cons by (rule process_unit_no_fix)
    qed
  qed
  from counter none show ?thesis by blast
qed

theorem no_change_no_write_witness:
  "example_fs ''/src/checked/a.c'' = Some ''int main() {\<newline>    gets(buf);\<newline>}\<newline>'' \<and>
   process_units example_loads unreachable (group_vulnerabilities [finding_at 2])
     (readlines ''int main() {\<newline>    gets(buf);\<newline>}\<newline>'', 0)
     = Inr ([''int main() {\<newline>'', ''    gets(buf);\<newline>'', ''}\<newline>''], 0) \<and>
   (\<forall>ol ctx v. query_llm_for_fix example_loads unreachable ol ctx v = PyNone) \<and>
   fix_file example_loads unreachable ''/src/checked/a.c'' [finding_at 2] example_fs
     = Inr example_fs"
proof -
  have fl: "example_fs ''/src/checked/a.c''
                = Some ''int main() {\<newline>    gets(buf);\<newline>}\<newline>''"
    by (simp add: example_fs_def)
  have q: "\<forall>ol ctx v. query_llm_for_fix example_loads unreachable ol ctx v = PyNone"
    by (simp add: query_llm_for_fix_def unreachable_def)
  have rl: "readlines ''int main() {\<newline>    gets(buf);\<newline>}\<newline>''
              = [''int main() {\<newline>'', ''    gets(buf);\<newline>'', ''}\<newline>'']"
    by (simp add: readlines_def)
  have gr: "group_vulnerabilities [finding_at 2] = [[finding_at 2]]"
    by (simp add: group_vulnerabilities_def)
  have run: "process_units example_loads unreachable (group_vulnerabilities [finding_at 2])
     (readlines ''int main() {\<newline>    gets(buf);\<newline>}\<newline>'', 0)
     = Inr ([''int main() {\<newline>'', ''    gets(buf);\<newline>'', ''}\<newline>''], 0)"
    using q by (simp add: rl gr process_unit_decision unit_decision_no_fix)
  from fl run q
    no_change_no_write [of example_fs "''/src/checked/a.c''"
      "''int main() {\<newline>    gets(buf);\<newline>}\<newline>''" example_loads unreachable "[finding_at 2]"
      "[''int main() {\<newline>'', ''    gets(buf);\<newline>'', ''}\<newline>'']"]
  show ?thesis by blast
qed



subsection \<open>Evaluating the examples\<close>

lemma example_lines:
  "readlines ''int main() {\<newline>    gets(buf);\<newline>}\<newline>''
     = [''int main() {\<newline>'', ''    gets(buf);\<newline>'', ''}\<newline>'']"
  by (simp add: readlines_def)

lemma plain_answer:
  "query_llm_for_fix example_loads (answering ''plain'') ol ctx v =
     PyDict [(''reason'', PyStr ''bounded read''),
             (''fixed_line'', PyStr ''fgets(buf, 64, stdin);  '')]"
  by (simp add: query_llm_for_fix_def answering_def example_loads_def)

lemma plain_decision:
  "unit_decision (query_llm_for_fix example_loads (answering ''plain'') ol ctx v) l =
     (if takeWhile isspace l @ ''fgets(buf, 64, stdin);\<newline>'' \<noteq> l
      then Inr (Some (takeWhile isspace l @ ''fgets(buf, 64, stdin);\<newline>''))
      else Inr None)"
proof -
  have r: "rstrip ''fgets(buf, 64, stdin);  '' = ''fgets(buf, 64, stdin);''"
    by (simp add: rstrip_def isspace_def)
  have st: "strip ''fgets(buf, 64, stdin);  '' = ''fgets(buf, 64, stdin);''"
    by (simp add: strip_def lstrip_def r isspace_def)
  show ?thesis
    by (simp add: plain_answer unit_decision_fixed_line r st)
qed

subsection \<open>Findings without a line\<close>

text \<open>
  C2, as the code has it. Grouping filters nothing: every finding of the input,
  whatever its line, is a member of some unit. A unit that contains a finding with
  line 0 has a primary finding with a line of at most 0, which the bounds guard of the
  loop body rejects: the unit is skipped, with no request, no change to the working
  copy and no increment of the counter. A file whose findings all have line 0 is
  therefore never written.
\<close>

theorem unlocated_finding_unit_skipped:
  "(v \<in> set vs \<longrightarrow> (\<exists>g \<in> set (group_vulnerabilities vs). v \<in> set g)) \<and>
   (g \<in> set (group_vulnerabilities vs) \<and> v \<in> set g \<and> line v = 0
      \<longrightarrow> process_unit json_loads service st g = Inr st) \<and>
   ((\<forall>u \<in> set vs. line u = 0) \<longrightarrow> fix_file json_loads service path vs fs = Inr fs)"
proof -
  have member: "v \<in> set vs \<longrightarrow> (\<exists>g \<in> set (group_vulnerabilities vs). v \<in> set g)"
    by (simp add: input_member_of_unit)
  have skipped: "process_unit json_loads service st' g' = Inr st'"
    if mem: "g' \<in> set (group_vulnerabilities vs')" and "u \<in> set g'" and "line u = 0"
    for g' u st' vs'
  proof (cases g')
    case Nil
    then show ?thesis by (simp add: process_unit_empty)
  next
    case (Cons p others)
    from mem have "sorted (map line g')" by (rule group_vulnerabilities_sorted)
    from this that(2) have "line (hd g') \<le> line u" by (rule sorted_hd_least)
    with that(3) Cons have "\<not> (0 \<le> line p - 1 \<and> line p - 1 < int (length (fst st')))"
      by simp
    then have "process_unit json_loads service (fst st', snd st') (p # others)
                 = Inr (fst st', snd st')"
      by (rule process_unit_out_of_range)
    with Cons show ?thesis by simp
  qed
  have unwritten: "fix_file json_loads service path vs fs = Inr fs"
    if zero: "\<forall>u \<in> set vs. line u = 0"
  proof (rule fix_file_unchanged)
    fix h st'
    assume mem: "h \<in> set (group_vulnerabilities vs)"
    show "process_unit json_loads service st' h = Inr st'"
    proof (cases h)
      case Nil
      then show ?thesis by (simp add: process_unit_empty)
    next
      case (Cons p others)
      then have "p \<in> set h" by simp
      moreover from this mem have "p \<in> set vs" by (auto intro: unit_member_of_input)
      with zero have "line p = 0" by simp
      ultimately show ?thesis using mem by (auto intro: skipped)
    qed
  qed
  from member skipped [of g vs v st] unwritten show ?thesis by blast
qed

theorem unlocated_finding_unit_skipped_witness:
  "finding_at 0 \<in> set [finding_at 0, finding_at 2] \<and>
   [finding_at 0, finding_at 2] \<in> set (group_vulnerabilities [finding_at 2, finding_at 0]) \<and>
   line (finding_at 0) = 0 \<and>
   process_unit example_loads (answering ''plain'')
     ([''int main() {\<newline>'', ''    gets(buf);\<newline>'', ''}\<newline>''], 0)
     [finding_at 0, finding_at 2]
     = Inr ([''int main() {\<newline>'', ''    gets(buf);\<newline>'', ''}\<newline>''], 0) \<and>
   fix_file example_loads (answering ''plain'') ''/src/checked/a.c'' [finding_at 0] example_fs
     = Inr example_fs"
proof -
  have mem: "[finding_at 0, finding_at 2]
               \<in> set (group_vulnerabilities [finding_at 2, finding_at 0])"
    by (simp add: group_vulnerabilities_def finding_at_def finding_in_def)
  have zero: "\<forall>u \<in> set [finding_at 0]. line u = 0"
    by simp
  from mem
    unlocated_finding_unit_skipped
      [of "finding_at 0" "[finding_at 2, finding_at 0]" "[finding_at 0, finding_at 2]"
          example_loads "answering ''plain''"
          "([''int main() {\<newline>'', ''    gets(buf);\<newline>'', ''}\<newline>''], 0)"]
  have unit: "process_unit example_loads (answering ''plain'')
     ([''int main() {\<newline>'', ''    gets(buf);\<newline>'', ''}\<newline>''], 0)
     [finding_at 0, finding_at 2]
     = Inr ([''int main() {\<newline>'', ''    gets(buf);\<newline>'', ''}\<newline>''], 0)"
    by simp
  from zero
    unlocated_finding_unit_skipped
      [of _ "[finding_at 0]" _ example_loads "answering ''plain''" _
          "''/src/checked/a.c''" example_fs]
  have unwritten: "fix_file example_loads (answering ''plain'') ''/src/checked/a.c''
                     [finding_at 0] example_fs = Inr example_fs"
    by blast
  have "finding_at 0 \<in> set [finding_at 0, finding_at 2]" and "line (finding_at 0) = 0"
    by simp_all
  with mem unit unwritten show ?thesis by blast
qed

text \<open>
  The findings at lines 2 and 0 form one unit, whose primary finding is the one at
  line 0. With the finding at line 0 present the file is left as it was; without it
  line 2 is fixed, the file rewritten and the backup made.
\<close>

theorem unlocated_finding_in_unit:
  "group_vulnerabilities [finding_at 2, finding_at 0] = [[finding_at 0, finding_at 2]] \<and>
   line (finding_at 0) = 0 \<and>
   fix_file example_loads (answering ''plain'') ''/src/checked/a.c''
     [finding_at 2, finding_at 0] example_fs = Inr example_fs \<and>
   map_sum id (\<lambda>fs. (fs ''/src/checked/a.c'', fs ''/src/checked/a.bak''))
     (fix_file example_loads (answering ''plain'') ''/src/checked/a.c'' [finding_at 2] example_fs)
     = Inr (Some ''int main() {\<newline>    fgets(buf, 64, stdin);\<newline>}\<newline>'',
            Some ''int main() {\<newline>    gets(buf);\<newline>}\<newline>'')"
proof -
  have units: "group_vulnerabilities [finding_at 2, finding_at 0]
                 = [[finding_at 0, finding_at 2]]"
    by (simp add: group_vulnerabilities_def finding_at_def finding_in_def)
  have shadowed: "fix_file example_loads (answering ''plain'') ''/src/checked/a.c''
                    [finding_at 2, finding_at 0] example_fs = Inr example_fs"
    by (simp add: fix_file_def example_fs_def example_lines units process_unit_decision)
  have alone: "map_sum id (\<lambda>fs. (fs ''/src/checked/a.c'', fs ''/src/checked/a.bak''))
     (fix_file example_loads (answering ''plain'') ''/src/checked/a.c'' [finding_at 2] example_fs)
     = Inr (Some ''int main() {\<newline>    fgets(buf, 64, stdin);\<newline>}\<newline>'',
            Some ''int main() {\<newline>    gets(buf);\<newline>}\<newline>'')"
    by (simp add: fix_file_def example_fs_def example_lines group_vulnerabilities_def
          process_unit_decision plain_decision isspace_def
          backup_path_def with_suffix_def suffix_def path_name_def copy2_def)
  from units shadowed alone show ?thesis by simp
qed

subsection \<open>Line count\<close>





subsection \<open>Backup and write\<close>

lemma takeWhile_upto:
  "c \<notin> set xs \<Longrightarrow> takeWhile (\<lambda>x. x \<noteq> c) (xs @ c # ys) = xs"
  by (induction xs) auto

lemma path_name_join:
  "CHR ''/'' \<notin> set name \<Longrightarrow> path_name (d @ CHR ''/'' # name) = name"
  using takeWhile_upto [of "CHR ''/''" "rev name" "rev d"]
  by (simp add: path_name_def)

lemma suffix_join:
  assumes "CHR ''/'' \<notin> set stem" "CHR ''/'' \<notin> set ext" "CHR ''.'' \<notin> set ext"
    "stem \<noteq> []" "ext \<noteq> []"
  shows "suffix (d @ CHR ''/'' # stem @ CHR ''.'' # ext) = CHR ''.'' # ext"
proof -
  have n: "path_name (d @ CHR ''/'' # stem @ CHR ''.'' # ext) = stem @ CHR ''.'' # ext"
    using assms by (simp add: path_name_join)
  have t: "takeWhile (\<lambda>c. c \<noteq> CHR ''.'') (rev ext @ CHR ''.'' # rev stem) = rev ext"
    using assms(3) takeWhile_upto [of "CHR ''.''" "rev ext" "rev stem"] by simp
  show ?thesis
    using assms(4,5) by (simp add: suffix_def n t Let_def)
qed

lemma backup_path_join:
  assumes "CHR ''/'' \<notin> set stem" "CHR ''/'' \<notin> set ext" "CHR ''.'' \<notin> set ext"
    "stem \<noteq> []" "ext \<noteq> []"
  shows "backup_path (d @ CHR ''/'' # stem @ CHR ''.'' # ext)
           = Inr (d @ CHR ''/'' # stem @ ''.bak'')"
proof -
  have n: "path_name (d @ CHR ''/'' # stem @ CHR ''.'' # ext) = stem @ CHR ''.'' # ext"
    using assms by (simp add: path_name_join)
  show ?thesis
    using assms by (simp add: backup_path_def with_suffix_def n suffix_join)
qed

text \<open>
  Where the backup path differs from the path of the file, finalisation after at least
  one accepted fix gives the backup the content the file had before the run, and then
  the file the working copy; every other file is as it was. The working copy has the
  entries of the file's lines, except at the target lines of the units.
\<close>

lemma fix_file_backup_then_write:
  assumes "fs path = Some content"
    and "process_units json_loads service (group_vulnerabilities vs) (readlines content, 0)
           = Inr (ml, cnt)"
    and "cnt > 0" and "backup_path path = Inr bak" and "bak \<noteq> path"
  shows "copy2 fs path bak = Inr (fs(bak \<mapsto> content))"
    and "fix_file json_loads service path vs fs
           = Inr (fs(bak \<mapsto> content, path \<mapsto> concat ml))"
    and "length ml = length (readlines content)"
    and "\<And>j. \<forall>g \<in> set (group_vulnerabilities vs). int j \<noteq> line (hd g) - 1
           \<Longrightarrow> ml ! j = readlines content ! j"
proof -
  from assms(1,5) show c: "copy2 fs path bak = Inr (fs(bak \<mapsto> content))"
    by (auto simp: copy2_def)
  from assms c show "fix_file json_loads service path vs fs
                       = Inr (fs(bak \<mapsto> content, path \<mapsto> concat ml))"
    by (simp add: fix_file_def)
  note p = process_units_preserves [OF assms(2)]
  from p show "length ml = length (readlines content)" by simp
  fix j
  assume "\<forall>g \<in> set (group_vulnerabilities vs). int j \<noteq> line (hd g) - 1"
  with p show "ml ! j = readlines content ! j" by blast
qed

text \<open>
  C4 at a file named \<open>x.bak\<close>: the backup path is the path of the file itself, the
  copy raises \<open>SameFileError\<close>, and the accepted fix is never written.
\<close>

theorem backup_of_bak_file_fails:
  "backup_path ''/src/checked/x.bak'' = Inr ''/src/checked/x.bak'' \<and>
   process_units example_loads (answering ''plain'')
     (group_vulnerabilities [finding_in ''/src/checked/x.bak'' 1])
     (readlines ''gets(a);\<newline>'', 0) = Inr ([''fgets(buf, 64, stdin);\<newline>''], 1) \<and>
   fix_file example_loads (answering ''plain'') ''/src/checked/x.bak''
     [finding_in ''/src/checked/x.bak'' 1] bak_fs = Inl SameFileError"
proof -
  have bp: "backup_path ''/src/checked/x.bak'' = Inr ''/src/checked/x.bak''"
    by (simp add: backup_path_def with_suffix_def suffix_def path_name_def)
  have run: "process_units example_loads (answering ''plain'')
     (group_vulnerabilities [finding_in ''/src/checked/x.bak'' 1])
     (readlines ''gets(a);\<newline>'', 0) = Inr ([''fgets(buf, 64, stdin);\<newline>''], 1)"
    by (simp add: group_vulnerabilities_def readlines_def finding_in_def
          process_unit_decision plain_decision isspace_def)
  have "fix_file example_loads (answering ''plain'') ''/src/checked/x.bak''
     [finding_in ''/src/checked/x.bak'' 1] bak_fs = Inl SameFileError"
    by (simp add: fix_file_def bak_fs_def run bp copy2_def)
  with bp run show ?thesis by blast
qed

text \<open>
  C10. The backup path replaces the extension of the file name by \<open>.bak\<close>: for a
  directory \<open>d\<close>, a stem and an extension, \<open>d/stem.ext\<close> is backed up at \<open>d/stem.bak\<close>,
  whatever the extension. So \<open>foo.c\<close> and \<open>foo.h\<close> of one directory share the backup
  path \<open>foo.bak\<close>, the mapping is not injective, and when both files are fixed the
  backup of \<open>foo.h\<close> replaces that of \<open>foo.c\<close>.
\<close>

theorem backup_path_not_injective:
  "(CHR ''/'' \<notin> set stem \<and> CHR ''/'' \<notin> set ext \<and> CHR ''.'' \<notin> set ext \<and>
    stem \<noteq> [] \<and> ext \<noteq> []
      \<longrightarrow> backup_path (d @ CHR ''/'' # stem @ CHR ''.'' # ext)
            = Inr (d @ CHR ''/'' # stem @ ''.bak'')) \<and>
   backup_path ''/src/checked/foo.c'' = Inr ''/src/checked/foo.bak'' \<and>
   backup_path ''/src/checked/foo.h'' = Inr ''/src/checked/foo.bak'' \<and>
   \<not> inj backup_path \<and>
   files_with_issues [finding_in ''/src/checked/foo.c'' 1, finding_in ''/src/checked/foo.h'' 1]
     = [(''/src/checked/foo.c'', [finding_in ''/src/checked/foo.c'' 1]),
        (''/src/checked/foo.h'', [finding_in ''/src/checked/foo.h'' 1])] \<and>
   map_sum id (\<lambda>fs. fs ''/src/checked/foo.bak'')
     (process_files example_loads (answering ''plain'')
        [(''/src/checked/foo.c'', [finding_in ''/src/checked/foo.c'' 1])] pair_fs)
     = Inr (Some ''gets(a);\<newline>'') \<and>
   map_sum id (\<lambda>fs. fs ''/src/checked/foo.bak'')
     (process_files example_loads (answering ''plain'')
        [(''/src/checked/foo.c'', [finding_in ''/src/checked/foo.c'' 1]),
         (''/src/checked/foo.h'', [finding_in ''/src/checked/foo.h'' 1])] pair_fs)
     = Inr (Some ''gets(b);\<newline>'')"
proof -
  have general: "CHR ''/'' \<notin> set stem \<and> CHR ''/'' \<notin> set ext \<and> CHR ''.'' \<notin> set ext \<and>
    stem \<noteq> [] \<and> ext \<noteq> []
      \<longrightarrow> backup_path (d @ CHR ''/'' # stem @ CHR ''.'' # ext)
            = Inr (d @ CHR ''/'' # stem @ ''.bak'')"
    by (simp add: backup_path_join)
  have c: "backup_path ''/src/checked/foo.c'' = Inr ''/src/checked/foo.bak''"
    by (simp add: backup_path_def with_suffix_def suffix_def path_name_def)
  have h: "backup_path ''/src/checked/foo.h'' = Inr ''/src/checked/foo.bak''"
    by (simp add: backup_path_def with_suffix_def suffix_def path_name_def)
  have ninj: "\<not> inj backup_path"
  proof
    assume "inj backup_path"
    moreover from c h have "backup_path ''/src/checked/foo.c'' = backup_path ''/src/checked/foo.h''"
      by simp
    ultimately have "''/src/checked/foo.c'' = ''/src/checked/foo.h''"
      by (rule injD)
    then show False by simp
  qed
  have fwi: "files_with_issues
       [finding_in ''/src/checked/foo.c'' 1, finding_in ''/src/checked/foo.h'' 1]
     = [(''/src/checked/foo.c'', [finding_in ''/src/checked/foo.c'' 1]),
        (''/src/checked/foo.h'', [finding_in ''/src/checked/foo.h'' 1])]"
    by (simp add: files_with_issues_def add_issue_def finding_in_def)
  have rl: "readlines ''gets(a);\<newline>'' = [''gets(a);\<newline>'']"
           "readlines ''gets(b);\<newline>'' = [''gets(b);\<newline>'']"
    by (simp_all add: readlines_def)
  have gr: "group_vulnerabilities [finding_in p 1] = [[finding_in p 1]]" for p
    by (simp add: group_vulnerabilities_def)
  have ln: "line (finding_in p 1) = 1" for p
    by (simp add: finding_in_def)
  have first: "map_sum id (\<lambda>fs. fs ''/src/checked/foo.bak'')
     (process_files example_loads (answering ''plain'')
        [(''/src/checked/foo.c'', [finding_in ''/src/checked/foo.c'' 1])] pair_fs)
     = Inr (Some ''gets(a);\<newline>'')"
    by (simp add: pair_fs_def fix_file_def rl gr ln process_unit_decision plain_decision
          isspace_def c copy2_def)
  have both: "map_sum id (\<lambda>fs. fs ''/src/checked/foo.bak'')
     (process_files example_loads (answering ''plain'')
        [(''/src/checked/foo.c'', [finding_in ''/src/checked/foo.c'' 1]),
         (''/src/checked/foo.h'', [finding_in ''/src/checked/foo.h'' 1])] pair_fs)
     = Inr (Some ''gets(b);\<newline>'')"
    by (simp add: pair_fs_def fix_file_def rl gr ln process_unit_decision plain_decision
          isspace_def c h copy2_def)
  from general c h ninj fwi first both show ?thesis by blast
qed

theorem backup_path_not_injective_witness:
  "CHR ''/'' \<notin> set ''foo'' \<and> CHR ''/'' \<notin> set ''cpp'' \<and> CHR ''.'' \<notin> set ''cpp'' \<and>
   ''foo'' \<noteq> [] \<and> ''cpp'' \<noteq> [] \<and>
   backup_path ''/src/checked/foo.cpp'' = Inr ''/src/checked/foo.bak''"
proof -
  have pre: "CHR ''/'' \<notin> set ''foo'' \<and> CHR ''/'' \<notin> set ''cpp'' \<and> CHR ''.'' \<notin> set ''cpp'' \<and>
             ''foo'' \<noteq> [] \<and> ''cpp'' \<noteq> []"
    by simp
  with backup_path_not_injective [of "''foo''" "''cpp''" "''/src/checked''"]
  have "backup_path (''/src/checked'' @ CHR ''/'' # ''foo'' @ CHR ''.'' # ''cpp'')
          = Inr (''/src/checked'' @ CHR ''/'' # ''foo'' @ ''.bak'')"
    by blast
  then have "backup_path ''/src/checked/foo.cpp'' = Inr ''/src/checked/foo.bak''"
    by simp
  with pre show ?thesis by blast
qed

subsection \<open>Normalising reports\<close>

text \<open>
  C7 at a cppcheck report whose location has \<open>line="abc"\<close>: \<open>int\<close> raises
  \<open>ValueError\<close>, which \<open>_run_cppcheck\<close> does not catch. The flawfinder normaliser
  gives line 0 for the same text; a cppcheck location without a line attribute gives
  line 0; a report that does not parse, or does not exist, gives no findings.
\<close>

theorem cppcheck_nonnumeric_line_raises:
  "run_cppcheck (\<lambda>p. ''/src/checked/'' @ p)
     (Some (cppcheck_report [(''file'', ''a.c''), (''line'', ''abc'')])) = Inl ValueError \<and>
   run_flawfinder (\<lambda>p. ''/src/checked/'' @ p) (Some (flawfinder_report ''abc'')) =
     Inr [\<lparr>tool = ''flawfinder'', file_path = ''/src/checked/a.c'', line = 0,
           message = ''Does not check for buffer overflows'', severity = ''5'',
           column = None\<rparr>] \<and>
   run_cppcheck (\<lambda>p. ''/src/checked/'' @ p) (Some (cppcheck_report [(''file'', ''a.c'')])) =
     Inr [\<lparr>tool = ''cppcheck'', file_path = ''/src/checked/a.c'', line = 0,
           message = ''Obsolete function gets called'', severity = ''warning'',
           column = None\<rparr>] \<and>
   run_cppcheck (\<lambda>p. ''/src/checked/'' @ p)
        (Some (cppcheck_report [(''file'', ''a.c''), (''line'', ''12'')])) =
     Inr [\<lparr>tool = ''cppcheck'', file_path = ''/src/checked/a.c'', line = 12,
           message = ''Obsolete function gets called'', severity = ''warning'',
           column = None\<rparr>] \<and>
   run_cppcheck (\<lambda>p. ''/src/checked/'' @ p) None = Inr [] \<and>
   run_flawfinder (\<lambda>p. ''/src/checked/'' @ p) None = Inr []"
proof -
  have abc: "py_int ''abc'' = None"
    by (simp add: py_int_def strip_def lstrip_def rstrip_def isspace_def is_decimal_def)
  have twelve: "py_int ''12'' = Some 12"
    by (simp add: py_int_def strip_def lstrip_def rstrip_def isspace_def is_decimal_def
          digit_value_def)
  have errors: "iter ''error'' (cppcheck_report a) =
      [Element ''error''
         [(''id'', ''getsCalled''), (''severity'', ''warning''),
          (''msg'', ''Obsolete function gets called'')]
         [Element ''location'' a []]]" for a
    by (simp add: cppcheck_report_def)
  have raises: "run_cppcheck (\<lambda>p. ''/src/checked/'' @ p)
     (Some (cppcheck_report [(''file'', ''a.c''), (''line'', ''abc'')])) = Inl ValueError"
    by (simp add: run_cppcheck_def errors find_child_def get_attr_def abc)
  have missing: "run_cppcheck (\<lambda>p. ''/src/checked/'' @ p)
       (Some (cppcheck_report [(''file'', ''a.c'')])) =
     Inr [\<lparr>tool = ''cppcheck'', file_path = ''/src/checked/a.c'', line = 0,
           message = ''Obsolete function gets called'', severity = ''warning'',
           column = None\<rparr>]"
    by (simp add: run_cppcheck_def errors find_child_def get_attr_def)
  have numeric: "run_cppcheck (\<lambda>p. ''/src/checked/'' @ p)
        (Some (cppcheck_report [(''file'', ''a.c''), (''line'', ''12'')])) =
     Inr [\<lparr>tool = ''cppcheck'', file_path = ''/src/checked/a.c'', line = 12,
           message = ''Obsolete function gets called'', severity = ''warning'',
           column = None\<rparr>]"
    by (simp add: run_cppcheck_def errors find_child_def get_attr_def twelve)
  have rows: "drop (Suc 0) (readlines (flawfinder_report ''abc'')) =
      [''a.c,abc,5,5,buffer,gets,Does not check for buffer overflows\<newline>'']"
    by (simp add: flawfinder_report_def readlines_def)
  have parts: "split CHR '','' (strip ''a.c,abc,5,5,buffer,gets,Does not check for buffer overflows\<newline>'')
      = [''a.c'', ''abc'', ''5'', ''5'', ''buffer'', ''gets'',
         ''Does not check for buffer overflows'']"
    by (simp add: strip_def lstrip_def rstrip_def isspace_def split_def)
  have nd: "\<not> isdigit ''abc''"
    by (simp add: isdigit_def isdigit_char_def is_decimal_def)
  have sibling: "run_flawfinder (\<lambda>p. ''/src/checked/'' @ p) (Some (flawfinder_report ''abc'')) =
     Inr [\<lparr>tool = ''flawfinder'', file_path = ''/src/checked/a.c'', line = 0,
           message = ''Does not check for buffer overflows'', severity = ''5'',
           column = None\<rparr>]"
    by (simp add: run_flawfinder_def rows parts nd Let_def)
  have absent: "run_cppcheck (\<lambda>p. ''/src/checked/'' @ p) None = Inr []"
                "run_flawfinder (\<lambda>p. ''/src/checked/'' @ p) None = Inr []"
    by (simp_all add: run_cppcheck_def run_flawfinder_def)
  from raises sibling missing numeric absent show ?thesis by blast
qed

subsection \<open>Reading back what was written\<close>

lemma readlines_acc_no_newline:
  "CHR 0x0A \<notin> set a \<Longrightarrow> readlines_acc cur a = (if cur @ a = [] then [] else [cur @ a])"
  by (induction a arbitrary: cur) auto

lemma readlines_acc_line:
  "CHR 0x0A \<notin> set a
     \<Longrightarrow> readlines_acc cur (a @ CHR 0x0A # rest) = (cur @ a @ [CHR 0x0A]) # readlines_acc [] rest"
  by (induction a arbitrary: cur) auto

lemma universal_newlines_no_cr: "CHR 0x0D \<notin> set (universal_newlines s)"
  by (induction s rule: universal_newlines.induct) (auto split: list.splits)

lemma universal_newlines_id: "CHR 0x0D \<notin> set s \<Longrightarrow> universal_newlines s = s"
  by (induction s) auto

lemma proper_lines_Nil: "proper_lines []"
  by (simp add: proper_lines_def)

lemma proper_lines_Cons:
  "proper_lines (l # ls) \<longleftrightarrow>
     l \<noteq> [] \<and> CHR 0x0A \<notin> set (butlast l) \<and> CHR 0x0D \<notin> set l \<and>
     (ls \<noteq> [] \<longrightarrow> last l = CHR 0x0A) \<and> proper_lines ls"
  by (auto simp: proper_lines_def)

lemma readlines_acc_proper:
  "CHR 0x0A \<notin> set cur \<Longrightarrow> CHR 0x0D \<notin> set cur \<Longrightarrow> CHR 0x0D \<notin> set s
     \<Longrightarrow> proper_lines (readlines_acc cur s)"
proof (induction s arbitrary: cur)
  case Nil
  then show ?case
    by (auto simp: proper_lines_Nil proper_lines_Cons dest: in_set_butlastD)
next
  case (Cons c cs)
  from Cons.prems have cs: "CHR 0x0D \<notin> set cs" and c: "c \<noteq> CHR 0x0D" by auto
  show ?case
  proof (cases "c = CHR 0x0A")
    case True
    have "proper_lines (readlines_acc [] cs)" using cs by (intro Cons.IH) simp_all
    with True Cons.prems show ?thesis by (simp add: proper_lines_Cons)
  next
    case False
    with Cons.prems c cs have "proper_lines (readlines_acc (cur @ [c]) cs)"
      by (intro Cons.IH) simp_all
    with False show ?thesis by simp
  qed
qed

lemma readlines_proper: "proper_lines (readlines s)"
  by (simp add: readlines_def readlines_acc_proper universal_newlines_no_cr)

lemma readlines_single:
  assumes "l \<noteq> []" and "CHR 0x0A \<notin> set (butlast l)" and "last l = CHR 0x0A"
  shows "readlines_acc [] (l @ rest) = l # readlines_acc [] rest"
proof -
  obtain b where lb: "l = b @ [CHR 0x0A]" and nb: "CHR 0x0A \<notin> set b"
    using assms by (metis append_butlast_last_id)
  have "readlines_acc [] ((b @ [CHR 0x0A]) @ rest) = (b @ [CHR 0x0A]) # readlines_acc [] rest"
    using readlines_acc_line [OF nb, of "[]" rest] by simp
  then show ?thesis by (simp only: lb)
qed

lemma readlines_acc_concat: "proper_lines ls \<Longrightarrow> readlines_acc [] (concat ls) = ls"
proof (induction ls)
  case Nil
  then show ?case by simp
next
  case (Cons l ls)
  then have l: "l \<noteq> []" "CHR 0x0A \<notin> set (butlast l)"
    and tl: "ls \<noteq> [] \<longrightarrow> last l = CHR 0x0A" and rest: "proper_lines ls"
    by (simp_all add: proper_lines_Cons)
  from Cons.IH [OF rest] have ih: "readlines_acc [] (concat ls) = ls" .
  show ?case
  proof (cases "last l = CHR 0x0A")
    case True
    with readlines_single [OF l, of "concat ls"] ih show ?thesis by simp
  next
    case False
    with tl have "ls = []" by blast
    moreover from False l have "CHR 0x0A \<notin> set l"
      by (metis append_butlast_last_id Un_iff set_append empty_iff empty_set set_ConsD)
    ultimately show ?thesis
      using l(1) by (simp add: readlines_acc_no_newline)
  qed
qed

lemma proper_lines_no_cr: "proper_lines ls \<Longrightarrow> CHR 0x0D \<notin> set (concat ls)"
  by (auto simp: proper_lines_def list_all_iff)

text \<open>Lines of the shape \<open>readlines\<close> returns are read back as they were written.\<close>

lemma readlines_concat: "proper_lines ls \<Longrightarrow> readlines (concat ls) = ls"
proof -
  assume proper: "proper_lines ls"
  then have "CHR 0x0D \<notin> set (concat ls)" by (rule proper_lines_no_cr)
  then have "universal_newlines (concat ls) = concat ls" by (rule universal_newlines_id)
  with proper show ?thesis by (simp only: readlines_def readlines_acc_concat)
qed

lemma proper_lines_update:
  assumes "proper_lines ls" and "l \<noteq> []" and "CHR 0x0A \<notin> set (butlast l)"
    and "CHR 0x0D \<notin> set l" and "last l = CHR 0x0A"
  shows "proper_lines (ls[i := l])"
proof -
  have a: "list_all P (xs[i := x])" if "list_all P xs" and "P x" for P xs and x :: string
    using that set_update_subset_insert [of xs i x] by (auto simp: list_all_iff)
  have b: "butlast (ls[i := l]) = butlast ls \<or> butlast (ls[i := l]) = (butlast ls)[i := l]"
    by (simp add: butlast_list_update)
  from assms have
    "list_all (\<lambda>l. l \<noteq> [] \<and> CHR 0x0A \<notin> set (butlast l) \<and> CHR 0x0D \<notin> set l) (ls[i := l])"
    by (intro a) (simp_all add: proper_lines_def)
  moreover from assms have "list_all (\<lambda>l. last l = CHR 0x0A) ((butlast ls)[i := l])"
    by (intro a) (simp_all add: proper_lines_def)
  moreover from assms have "list_all (\<lambda>l. last l = CHR 0x0A) (butlast ls)"
    by (simp add: proper_lines_def)
  ultimately show ?thesis using b by (auto simp: proper_lines_def)
qed

lemma proper_lines_nth:
  "proper_lines ls \<Longrightarrow> i < length ls
     \<Longrightarrow> CHR 0x0A \<notin> set (butlast (ls ! i)) \<and> CHR 0x0D \<notin> set (ls ! i)"
  by (simp add: proper_lines_def list_all_length)

subsection \<open>The decision on a line that was fixed before\<close>

lemma rstrip_prefix: "s = rstrip s @ rev (takeWhile isspace (rev s))"
proof -
  have "rev (takeWhile isspace (rev s) @ dropWhile isspace (rev s)) = s"
    by (simp only: takeWhile_dropWhile_id rev_rev_ident)
  then have "rev (dropWhile isspace (rev s)) @ rev (takeWhile isspace (rev s)) = s"
    by (simp only: rev_append)
  then show ?thesis unfolding rstrip_def by (rule sym)
qed

lemma hd_rstrip: "rstrip s \<noteq> [] \<Longrightarrow> hd (rstrip s) = hd s"
  by (metis hd_append2 rstrip_prefix)

lemma unit_decision_accepted:
  assumes "unit_decision fix_data l = Inr (Some l')"
  obtains kvs s where "fix_data = PyDict kvs" "map_of kvs ''fixed_line'' = Some (PyStr s)"
    "l' = takeWhile isspace l @ rstrip s @ [CHR 0x0A]" "strip s \<noteq> []"
proof (cases fix_data)
  case (PyDict kvs)
  show thesis
  proof (cases "map_of kvs ''fixed_line''")
    case None
    with assms PyDict show thesis
      by (simp add: unit_decision_def split: if_splits)
  next
    case (Some v)
    then have ne: "kvs \<noteq> []" by auto
    show thesis
    proof (cases v)
      case (PyStr s)
      with assms PyDict Some have
        "l' = takeWhile isspace l @ rstrip s @ [CHR 0x0A]" "strip s \<noteq> []"
        by (simp_all add: unit_decision_fixed_line split: if_splits)
      with PyDict Some PyStr show thesis by (auto intro: that)
    qed (use assms PyDict Some ne in \<open>simp_all add: unit_decision_def\<close>)
  qed
qed (use assms in \<open>simp_all add: unit_decision_def split: if_splits bool.splits\<close>)

lemma strip_nonempty_rstrip: "strip s \<noteq> [] \<Longrightarrow> rstrip s \<noteq> []"
  by (auto simp: strip_def lstrip_def)

lemma unit_decision_stable:
  assumes "unit_decision fix_data l = Inr (Some l')" and "clean_proposal fix_data"
  shows "unit_decision fix_data l' = Inr None"
proof -
  from assms(1) obtain kvs s where fd: "fix_data = PyDict kvs"
    and pay: "map_of kvs ''fixed_line'' = Some (PyStr s)"
    and l': "l' = takeWhile isspace l @ rstrip s @ [CHR 0x0A]" and st: "strip s \<noteq> []"
    by (rule unit_decision_accepted)
  from st have ne: "rstrip s \<noteq> []" by (rule strip_nonempty_rstrip)
  with assms(2) fd pay have "\<not> isspace (hd s)" by simp
  with ne have "\<not> isspace (hd (rstrip s))" by (simp add: hd_rstrip)
  with ne have "takeWhile isspace (rstrip s @ [CHR 0x0A]) = []"
    by (cases "rstrip s") simp_all
  moreover have "\<forall>c \<in> set (takeWhile isspace l). isspace c"
    by (auto dest: set_takeWhileD)
  ultimately have "takeWhile isspace l' = takeWhile isspace l"
    unfolding l' by (simp add: takeWhile_append2)
  with l' have "takeWhile isspace l' @ rstrip s @ [CHR 0x0A] = l'" by simp
  with fd pay show ?thesis by (simp add: unit_decision_fixed_line)
qed

lemma unit_decision_proper:
  assumes "unit_decision fix_data l = Inr (Some l')" and "clean_proposal fix_data"
    and "\<not> blank l" and "CHR 0x0A \<notin> set (butlast l)" and "CHR 0x0D \<notin> set l"
  shows "l' \<noteq> [] \<and> CHR 0x0A \<notin> set (butlast l') \<and> CHR 0x0D \<notin> set l' \<and>
         last l' = CHR 0x0A \<and> \<not> blank l'"
proof -
  from assms(1) obtain kvs s where fd: "fix_data = PyDict kvs"
    and pay: "map_of kvs ''fixed_line'' = Some (PyStr s)"
    and l': "l' = takeWhile isspace l @ rstrip s @ [CHR 0x0A]" and st: "strip s \<noteq> []"
    by (rule unit_decision_accepted)
  from st have ne: "rstrip s \<noteq> []" by (rule strip_nonempty_rstrip)
  from assms(2) fd pay have nl: "CHR 0x0A \<notin> set (rstrip s)" "CHR 0x0D \<notin> set (rstrip s)"
    by simp_all
  from assms(3) have "dropWhile isspace l \<noteq> []"
    by (simp add: blank_def dropWhile_eq_Nil_conv)
  then have "butlast l = takeWhile isspace l @ butlast (dropWhile isspace l)"
    by (metis butlast_append takeWhile_dropWhile_id)
  with assms(4) have ind: "CHR 0x0A \<notin> set (takeWhile isspace l)" by auto
  from assms(5) have cr: "CHR 0x0D \<notin> set (takeWhile isspace l)"
    by (auto dest: set_takeWhileD)
  have bl: "butlast l' = takeWhile isspace l @ rstrip s"
    unfolding l' by (simp add: butlast_append)
  from ne have "\<not> isspace (last (rstrip s))" by (rule rstrip_last)
  moreover from ne have "last (rstrip s) \<in> set l'" unfolding l' by simp
  ultimately have "\<not> blank l'" by (auto simp: blank_def)
  with bl ind cr nl show ?thesis unfolding l' by simp
qed

subsection \<open>A second run\<close>

lemma sorted_hd_last: "sorted (map line g) \<Longrightarrow> g \<noteq> [] \<Longrightarrow> line (hd g) \<le> line (last g)"
  by (cases g) auto

lemma separated_primaries_increase:
  "separated gs \<Longrightarrow> \<forall>g \<in> set gs. g \<noteq> [] \<and> sorted (map line g)
     \<Longrightarrow> sorted_wrt (<) (map (\<lambda>g. line (hd g)) gs)"
proof (induction gs rule: separated.induct)
  case (1 g h rest)
  then have sep: "line (hd h) - line (last g) > 3" and tail: "separated (h # rest)"
    by simp_all
  from "1.prems"(2) have g: "g \<noteq> []" "sorted (map line g)" by simp_all
  from "1.prems"(2) have "\<forall>g \<in> set (h # rest). g \<noteq> [] \<and> sorted (map line g)" by simp
  with "1.IH" tail have ih: "sorted_wrt (<) (map (\<lambda>g. line (hd g)) (h # rest))" by blast
  from g have "line (hd g) \<le> line (last g)" by (intro sorted_hd_last)
  with sep have lt: "line (hd g) < line (hd h)" by simp
  with ih have "\<forall>x \<in> set (h # rest). line (hd g) < line (hd x)" by auto
  with ih show ?case by simp
qed simp_all

text \<open>The units of a file have different primary lines.\<close>

lemma distinct_primaries: "distinct (map (\<lambda>g. line (hd g)) (group_vulnerabilities vs))"
proof -
  have "\<forall>g \<in> set (group_vulnerabilities vs). g \<noteq> [] \<and> sorted (map line g)"
    using group_vulnerabilities_nonempty [of vs] group_vulnerabilities_sorted [of _ vs]
    by blast
  with group_vulnerabilities_separated [of vs]
  have "sorted_wrt (<) (map (\<lambda>g. line (hd g)) (group_vulnerabilities vs))"
    by (rule separated_primaries_increase)
  then show ?thesis by (simp add: strict_sorted_iff)
qed

lemma process_unit_deterministic:
  assumes "\<And>ol ctx u. query_llm_for_fix json_loads service ol ctx u = proposal u"
  shows "process_unit json_loads service (ls, k) (v # others) =
     (if 0 \<le> line v - 1 \<and> line v - 1 < int (length ls) then
        (case unit_decision (proposal v) (ls ! nat (line v - 1)) of
           Inl e \<Rightarrow> Inl e
         | Inr None \<Rightarrow> Inr (ls, k)
         | Inr (Some fixed_line) \<Rightarrow> Inr (ls[nat (line v - 1) := fixed_line], k + 1))
      else Inr (ls, k))"
  by (simp only: process_unit_decision assms)

text \<open>
  After a unit was processed, processing it again changes nothing, as long as the
  line it targets is the one it left.
\<close>

lemma process_unit_settles:
  assumes det: "\<And>ol ctx u. query_llm_for_fix json_loads service ol ctx u = proposal u"
    and clean: "\<And>u. clean_proposal (proposal u)"
    and step: "process_unit json_loads service (ls, k) (v # others) = Inr (ls1, k1)"
    and same: "length ls' = length ls1"
      "0 \<le> line v - 1 \<Longrightarrow> ls' ! nat (line v - 1) = ls1 ! nat (line v - 1)"
  shows "process_unit json_loads service (ls', n) (v # others) = Inr (ls', n)"
proof (cases "0 \<le> line v - 1 \<and> line v - 1 < int (length ls)")
  case False
  from step have "length ls1 = length ls"
    using process_unit_preserves by blast
  with False same(1) have "\<not> (0 \<le> line v - 1 \<and> line v - 1 < int (length ls'))" by simp
  then show ?thesis by (rule process_unit_out_of_range)
next
  case True
  let ?i = "nat (line v - 1)"
  from True have i: "?i < length ls" by linarith
  have "unit_decision (proposal v) (ls1 ! ?i) = Inr None"
  proof (cases "unit_decision (proposal v) (ls ! ?i)")
    case (Inl e)
    with step True show ?thesis by (simp add: process_unit_deterministic [OF det])
  next
    case (Inr d)
    show ?thesis
    proof (cases d)
      case None
      with Inr step True show ?thesis by (simp add: process_unit_deterministic [OF det])
    next
      case (Some fixed_line)
      with Inr step True i have "ls1 ! ?i = fixed_line"
        by (auto simp: process_unit_deterministic [OF det])
      moreover from Inr Some clean have "unit_decision (proposal v) fixed_line = Inr None"
        by (auto intro: unit_decision_stable)
      ultimately show ?thesis by simp
    qed
  qed
  moreover from step have "length ls1 = length ls"
    using process_unit_preserves by blast
  ultimately show ?thesis
    using True same by (simp add: process_unit_deterministic [OF det])
qed

lemma process_units_settle:
  assumes det: "\<And>ol ctx u. query_llm_for_fix json_loads service ol ctx u = proposal u"
    and clean: "\<And>u. clean_proposal (proposal u)"
  shows "distinct (map (\<lambda>g. line (hd g)) gs) \<Longrightarrow> [] \<notin> set gs
     \<Longrightarrow> process_units json_loads service gs (ls, k) = Inr (ls', k')
     \<Longrightarrow> g \<in> set gs
     \<Longrightarrow> process_unit json_loads service (ls', n) g = Inr (ls', n)"
proof (induction gs arbitrary: ls k)
  case Nil
  then show ?case by simp
next
  case (Cons h gs)
  from Cons.prems(3) obtain ls1 k1 where
    step: "process_unit json_loads service (ls, k) h = Inr (ls1, k1)"
    and run: "process_units json_loads service gs (ls1, k1) = Inr (ls', k')"
    by (auto split: sum.splits)
  show ?case
  proof (cases "g \<in> set gs")
    case True
    from Cons.prems(1,2) have "distinct (map (\<lambda>g. line (hd g)) gs)" "[] \<notin> set gs"
      by simp_all
    from this run True show ?thesis by (rule Cons.IH)
  next
    case False
    with Cons.prems(4) have gh: "g = h" by simp
    from Cons.prems(2) obtain v others where h: "h = v # others"
      by (cases h) auto
    note frame = process_units_preserves [OF run]
    have "ls' ! nat (line v - 1) = ls1 ! nat (line v - 1)" if "0 \<le> line v - 1"
    proof -
      have "\<forall>g' \<in> set gs. g' = [] \<or> int (nat (line v - 1)) \<noteq> line (hd g') - 1"
      proof
        fix g'
        assume "g' \<in> set gs"
        with Cons.prems(1) h have "line (hd g') \<noteq> line v" by force
        with that show "g' = [] \<or> int (nat (line v - 1)) \<noteq> line (hd g') - 1" by simp
      qed
      with frame show ?thesis by blast
    qed
    moreover from frame have "length ls' = length ls1" by simp
    ultimately have "process_unit json_loads service (ls', n) (v # others) = Inr (ls', n)"
      using step unfolding h by (intro process_unit_settles [OF det clean]) 
    with gh h show ?thesis by simp
  qed
qed

lemma process_units_all_settled:
  "(\<And>g n. g \<in> set gs \<Longrightarrow> process_unit json_loads service (ls, n) g = Inr (ls, n))
     \<Longrightarrow> process_units json_loads service gs (ls, k) = Inr (ls, k)"
  by (induction gs) simp_all

lemma process_unit_proper:
  assumes det: "\<And>ol ctx u. query_llm_for_fix json_loads service ol ctx u = proposal u"
    and clean: "\<And>u. clean_proposal (proposal u)"
    and proper: "proper_lines ls"
    and target: "0 \<le> line v - 1 \<and> line v - 1 < int (length ls)
                   \<longrightarrow> \<not> blank (ls ! nat (line v - 1))"
    and step: "process_unit json_loads service (ls, k) (v # others) = Inr (ls1, k1)"
  shows "proper_lines ls1 \<and> (\<forall>j < length ls. \<not> blank (ls ! j) \<longrightarrow> \<not> blank (ls1 ! j))"
proof (cases "0 \<le> line v - 1 \<and> line v - 1 < int (length ls)")
  case False
  then have "process_unit json_loads service (ls, k) (v # others) = Inr (ls, k)"
    by (rule process_unit_out_of_range)
  with step proper show ?thesis by simp
next
  case True
  let ?i = "nat (line v - 1)"
  from True have i: "?i < length ls" by linarith
  show ?thesis
  proof (cases "unit_decision (proposal v) (ls ! ?i)")
    case (Inl e)
    with step True show ?thesis by (simp add: process_unit_deterministic [OF det])
  next
    case (Inr d)
    show ?thesis
    proof (cases d)
      case None
      with Inr step True proper show ?thesis
        by (simp add: process_unit_deterministic [OF det])
    next
      case (Some fixed_line)
      with Inr step True have ls1: "ls1 = ls[?i := fixed_line]"
        by (simp add: process_unit_deterministic [OF det])
      from proper i have
        "CHR 0x0A \<notin> set (butlast (ls ! ?i)) \<and> CHR 0x0D \<notin> set (ls ! ?i)"
        by (rule proper_lines_nth)
      with Inr Some clean target True have fl:
        "fixed_line \<noteq> [] \<and> CHR 0x0A \<notin> set (butlast fixed_line) \<and>
         CHR 0x0D \<notin> set fixed_line \<and> last fixed_line = CHR 0x0A \<and> \<not> blank fixed_line"
        by (intro unit_decision_proper [of "proposal v" "ls ! ?i"]) simp_all
      with proper have "proper_lines (ls[?i := fixed_line])"
        by (intro proper_lines_update) simp_all
      moreover from fl i have
        "\<forall>j < length ls. \<not> blank (ls ! j) \<longrightarrow> \<not> blank (ls[?i := fixed_line] ! j)"
        by (auto simp: nth_list_update)
      ultimately show ?thesis by (simp add: ls1)
    qed
  qed
qed

lemma process_units_proper:
  assumes det: "\<And>ol ctx u. query_llm_for_fix json_loads service ol ctx u = proposal u"
    and clean: "\<And>u. clean_proposal (proposal u)"
  shows "proper_lines ls \<Longrightarrow> [] \<notin> set gs
     \<Longrightarrow> \<forall>g \<in> set gs. 0 \<le> line (hd g) - 1 \<and> line (hd g) - 1 < int (length ls)
                     \<longrightarrow> \<not> blank (ls ! nat (line (hd g) - 1))
     \<Longrightarrow> process_units json_loads service gs (ls, k) = Inr (ls', k')
     \<Longrightarrow> proper_lines ls'"
proof (induction gs arbitrary: ls k)
  case Nil
  then show ?case by simp
next
  case (Cons h gs)
  from Cons.prems(4) obtain ls1 k1 where
    step: "process_unit json_loads service (ls, k) h = Inr (ls1, k1)"
    and run: "process_units json_loads service gs (ls1, k1) = Inr (ls', k')"
    by (auto split: sum.splits)
  from Cons.prems(2) obtain v others where h: "h = v # others"
    by (cases h) auto
  from Cons.prems(3) h have
    "0 \<le> line v - 1 \<and> line v - 1 < int (length ls) \<longrightarrow> \<not> blank (ls ! nat (line v - 1))"
    by simp
  with Cons.prems(1) step have one:
    "proper_lines ls1 \<and> (\<forall>j < length ls. \<not> blank (ls ! j) \<longrightarrow> \<not> blank (ls1 ! j))"
    unfolding h by (intro process_unit_proper [OF det clean])
  from step have len: "length ls1 = length ls"
    using process_unit_preserves by blast
  have "\<forall>g \<in> set gs. 0 \<le> line (hd g) - 1 \<and> line (hd g) - 1 < int (length ls1)
                     \<longrightarrow> \<not> blank (ls1 ! nat (line (hd g) - 1))"
  proof (intro ballI impI)
    fix g
    assume g: "g \<in> set gs"
      and range: "0 \<le> line (hd g) - 1 \<and> line (hd g) - 1 < int (length ls1)"
    with len have j: "nat (line (hd g) - 1) < length ls" by linarith
    from g range len Cons.prems(3) have "\<not> blank (ls ! nat (line (hd g) - 1))" by simp
    with one j show "\<not> blank (ls1 ! nat (line (hd g) - 1))" by blast
  qed
  moreover from one have "proper_lines ls1" by simp
  moreover from Cons.prems(2) have "[] \<notin> set gs" by simp
  ultimately show ?case using run by (intro Cons.IH)
qed

text \<open>
  C9, as the code has it. Let the fix service answer by the primary finding alone, let
  no proposed \<open>fixed_line\<close> begin with whitespace or contain a newline or a carriage
  return, and let no unit target a line that is empty or all whitespace. If a first run of \<open>fix_file\<close>
  completes, a second run on the file system it leaves accepts nothing: the units
  leave working copy and counter as they are, and the file system is returned as the
  first run left it.
\<close>

theorem second_run_changes_nothing:
  assumes det: "\<forall>ol ctx u. query_llm_for_fix json_loads service ol ctx u = proposal u"
    and clean: "\<forall>u. clean_proposal (proposal u)"
    and nonblank: "\<forall>content. fs path = Some content \<longrightarrow>
        (\<forall>g \<in> set (group_vulnerabilities vs).
           0 \<le> line (hd g) - 1 \<and> line (hd g) - 1 < int (length (readlines content))
             \<longrightarrow> \<not> blank (readlines content ! nat (line (hd g) - 1)))"
    and first: "fix_file json_loads service path vs fs = Inr fs1"
  shows "fix_file json_loads service path vs fs1 = Inr fs1 \<and>
         fix_file_twice json_loads service path vs fs = Inr fs1 \<and>
         (\<forall>content1. fs1 path = Some content1 \<longrightarrow>
            process_units json_loads service (group_vulnerabilities vs) (readlines content1, 0)
              = Inr (readlines content1, 0))"
proof -
  let ?gs = "group_vulnerabilities vs"
  from det have det': "\<And>ol ctx u. query_llm_for_fix json_loads service ol ctx u = proposal u"
    by simp
  from clean have clean': "\<And>u. clean_proposal (proposal u)"
    by simp
  have settled_run: "process_units json_loads service ?gs (readlines content1, 0)
                       = Inr (readlines content1, 0)"
    if "fs1 path = Some content1" for content1
  proof (cases "fs path")
    case None
    with first have "fs1 = fs" by (simp add: fix_file_def)
    with None that show ?thesis by simp
  next
    case (Some content)
    from first Some obtain ml cnt where
      run: "process_units json_loads service ?gs (readlines content, 0) = Inr (ml, cnt)"
      by (auto simp: fix_file_def split: sum.splits)
    have settled: "process_unit json_loads service (ml, n) g = Inr (ml, n)"
      if "g \<in> set ?gs" for g n
      using distinct_primaries group_vulnerabilities_nonempty run that
      by (rule process_units_settle [OF det' clean'])
    have again: "process_units json_loads service ?gs (ml, 0) = Inr (ml, 0)"
      using settled by (rule process_units_all_settled)
    from nonblank Some have
      "\<forall>g \<in> set ?gs. 0 \<le> line (hd g) - 1 \<and> line (hd g) - 1 < int (length (readlines content))
             \<longrightarrow> \<not> blank (readlines content ! nat (line (hd g) - 1))"
      by blast
    with readlines_proper group_vulnerabilities_nonempty have proper: "proper_lines ml"
      using run by (rule process_units_proper [OF det' clean'])
    show ?thesis
    proof (cases "cnt > 0")
      case False
      with process_units_preserves [OF run] have "ml = readlines content" by simp
      moreover from False first Some run have "fs1 = fs" by (simp add: fix_file_def)
      ultimately show ?thesis using again Some \<open>fs1 path = Some content1\<close> by simp
    next
      case True
      with first Some run have "fs1 path = Some (concat ml)"
        by (auto simp: fix_file_def split: sum.splits)
      with \<open>fs1 path = Some content1\<close> have "content1 = concat ml" by simp
      with proper again show ?thesis by (simp add: readlines_concat)
    qed
  qed
  have second: "fix_file json_loads service path vs fs1 = Inr fs1"
  proof (cases "fs1 path")
    case None
    then show ?thesis by (simp add: fix_file_def)
  next
    case (Some content1)
    with settled_run [OF Some] show ?thesis by (simp add: fix_file_def)
  qed
  with first have "fix_file_twice json_loads service path vs fs = Inr fs1"
    by (simp add: fix_file_twice_def)
  with second settled_run show ?thesis by blast
qed

theorem second_run_changes_nothing_witness:
  "(\<forall>ol ctx u. query_llm_for_fix example_loads (answering ''plain'') ol ctx u =
      PyDict [(''reason'', PyStr ''bounded read''),
              (''fixed_line'', PyStr ''fgets(buf, 64, stdin);  '')]) \<and>
   clean_proposal (PyDict [(''reason'', PyStr ''bounded read''),
                           (''fixed_line'', PyStr ''fgets(buf, 64, stdin);  '')]) \<and>
   \<not> blank (readlines ''int main() {\<newline>    gets(buf);\<newline>}\<newline>'' ! nat (line (finding_at 2) - 1)) \<and>
   fix_file example_loads (answering ''plain'') ''/src/checked/a.c'' [finding_at 2] example_fs
     = Inr fixed_fs \<and>
   fix_file example_loads (answering ''plain'') ''/src/checked/a.c'' [finding_at 2] fixed_fs
     = Inr fixed_fs \<and>
   fix_file_twice example_loads (answering ''plain'') ''/src/checked/a.c'' [finding_at 2]
     example_fs = Inr fixed_fs"
proof -
  let ?kvs = "[(''reason'', PyStr ''bounded read''),
               (''fixed_line'', PyStr ''fgets(buf, 64, stdin);  '')]"
  have det: "\<forall>ol ctx u. query_llm_for_fix example_loads (answering ''plain'') ol ctx u
               = (\<lambda>u. PyDict ?kvs) u"
    by (simp add: plain_answer)
  have clean: "clean_proposal (PyDict ?kvs)"
    by (simp add: rstrip_def isspace_def)
  then have clean_all: "\<forall>u. clean_proposal ((\<lambda>u. PyDict ?kvs) u)"
    by simp
  have nb: "\<not> blank (readlines ''int main() {\<newline>    gets(buf);\<newline>}\<newline>''
                       ! nat (line (finding_at 2) - 1))"
    by (simp add: example_lines blank_def isspace_def)
  have gr: "group_vulnerabilities [finding_at 2] = [[finding_at 2]]"
    by (simp add: group_vulnerabilities_def)
  from nb have nonblank: "\<forall>content. example_fs ''/src/checked/a.c'' = Some content \<longrightarrow>
        (\<forall>g \<in> set (group_vulnerabilities [finding_at 2]).
           0 \<le> line (hd g) - 1 \<and> line (hd g) - 1 < int (length (readlines content))
             \<longrightarrow> \<not> blank (readlines content ! nat (line (hd g) - 1)))"
    by (simp add: example_fs_def gr)
  have first: "fix_file example_loads (answering ''plain'') ''/src/checked/a.c''
                 [finding_at 2] example_fs = Inr fixed_fs"
    by (simp add: fix_file_def fixed_fs_def example_fs_def example_lines gr
          process_unit_decision plain_decision isspace_def
          backup_path_def with_suffix_def suffix_def path_name_def copy2_def)
  from second_run_changes_nothing [OF det clean_all nonblank first]
  have "fix_file example_loads (answering ''plain'') ''/src/checked/a.c'' [finding_at 2] fixed_fs
          = Inr fixed_fs \<and>
        fix_file_twice example_loads (answering ''plain'') ''/src/checked/a.c'' [finding_at 2]
          example_fs = Inr fixed_fs"
    by blast
  with det clean nb first show ?thesis by simp
qed

text \<open>
  A service that always proposes the same \<open>fixed_line\<close>, indented by two spaces: the
  first run indents the line by six spaces, the second by eight. And a service that
  always proposes the same \<open>fixed_line\<close> without indentation, for a finding on an
  empty line: each run adds the proposed line once more.
\<close>

theorem second_run_not_idempotent:
  "map_sum id (\<lambda>fs. fs ''/src/checked/a.c'')
     (fix_file example_loads (answering ''indented'') ''/src/checked/a.c'' [finding_at 2]
        example_fs)
     = Inr (Some ''int main() {\<newline>      fgets(buf, 64, stdin);\<newline>}\<newline>'') \<and>
   map_sum id (\<lambda>fs. fs ''/src/checked/a.c'')
     (fix_file_twice example_loads (answering ''indented'') ''/src/checked/a.c'' [finding_at 2]
        example_fs)
     = Inr (Some ''int main() {\<newline>        fgets(buf, 64, stdin);\<newline>}\<newline>'') \<and>
   map_sum id (\<lambda>fs. fs ''/src/checked/a.c'')
     (fix_file example_loads (answering ''plain'') ''/src/checked/a.c'' [finding_at 2]
        [''/src/checked/a.c'' \<mapsto> ''int n;\<newline>\<newline>''])
     = Inr (Some ''int n;\<newline>\<newline>fgets(buf, 64, stdin);\<newline>'') \<and>
   map_sum id (\<lambda>fs. fs ''/src/checked/a.c'')
     (fix_file_twice example_loads (answering ''plain'') ''/src/checked/a.c'' [finding_at 2]
        [''/src/checked/a.c'' \<mapsto> ''int n;\<newline>\<newline>''])
     = Inr (Some ''int n;\<newline>\<newline>fgets(buf, 64, stdin);\<newline>fgets(buf, 64, stdin);\<newline>'')"
proof -
  have answer: "query_llm_for_fix example_loads (answering ''indented'') ol ctx v =
      PyDict [(''reason'', PyStr ''bounded read''),
              (''fixed_line'', PyStr ''  fgets(buf, 64, stdin);'')]" for ol ctx v
    by (simp add: query_llm_for_fix_def answering_def example_loads_def)
  have r: "rstrip ''  fgets(buf, 64, stdin);'' = ''  fgets(buf, 64, stdin);''"
    by (simp add: rstrip_def isspace_def)
  have st: "strip ''  fgets(buf, 64, stdin);'' = ''fgets(buf, 64, stdin);''"
    by (simp add: strip_def lstrip_def r isspace_def)
  have decision:
    "unit_decision (query_llm_for_fix example_loads (answering ''indented'') ol ctx v) l =
       (if takeWhile isspace l @ ''  fgets(buf, 64, stdin);\<newline>'' \<noteq> l
        then Inr (Some (takeWhile isspace l @ ''  fgets(buf, 64, stdin);\<newline>''))
        else Inr None)" for ol ctx v l
    by (simp add: answer unit_decision_fixed_line r st)
  have gr: "group_vulnerabilities [finding_at 2] = [[finding_at 2]]"
    by (simp add: group_vulnerabilities_def)
  have lines2: "readlines ''int main() {\<newline>      fgets(buf, 64, stdin);\<newline>}\<newline>''
     = [''int main() {\<newline>'', ''      fgets(buf, 64, stdin);\<newline>'', ''}\<newline>'']"
    by (simp add: readlines_def)
  have bp: "backup_path ''/src/checked/a.c'' = Inr ''/src/checked/a.bak''"
    by (simp add: backup_path_def with_suffix_def suffix_def path_name_def)
  have once: "map_sum id (\<lambda>fs. fs ''/src/checked/a.c'')
     (fix_file example_loads (answering ''indented'') ''/src/checked/a.c'' [finding_at 2]
        example_fs)
     = Inr (Some ''int main() {\<newline>      fgets(buf, 64, stdin);\<newline>}\<newline>'')"
    by (simp add: fix_file_def example_fs_def example_lines gr process_unit_decision
          decision isspace_def bp copy2_def)
  have twice: "map_sum id (\<lambda>fs. fs ''/src/checked/a.c'')
     (fix_file_twice example_loads (answering ''indented'') ''/src/checked/a.c'' [finding_at 2]
        example_fs)
     = Inr (Some ''int main() {\<newline>        fgets(buf, 64, stdin);\<newline>}\<newline>'')"
    by (simp add: fix_file_twice_def fix_file_def example_fs_def example_lines lines2 gr
          process_unit_decision decision isspace_def bp copy2_def)
  have blank1: "readlines ''int n;\<newline>\<newline>'' = [''int n;\<newline>'', ''\<newline>'']"
    by (simp add: readlines_def)
  have blank2: "readlines ''int n;\<newline>\<newline>fgets(buf, 64, stdin);\<newline>''
                  = [''int n;\<newline>'', ''\<newline>'', ''fgets(buf, 64, stdin);\<newline>'']"
    by (simp add: readlines_def)
  have once_blank: "map_sum id (\<lambda>fs. fs ''/src/checked/a.c'')
     (fix_file example_loads (answering ''plain'') ''/src/checked/a.c'' [finding_at 2]
        [''/src/checked/a.c'' \<mapsto> ''int n;\<newline>\<newline>''])
     = Inr (Some ''int n;\<newline>\<newline>fgets(buf, 64, stdin);\<newline>'')"
    by (simp add: fix_file_def blank1 gr process_unit_decision plain_decision isspace_def
          bp copy2_def)
  have twice_blank: "map_sum id (\<lambda>fs. fs ''/src/checked/a.c'')
     (fix_file_twice example_loads (answering ''plain'') ''/src/checked/a.c'' [finding_at 2]
        [''/src/checked/a.c'' \<mapsto> ''int n;\<newline>\<newline>''])
     = Inr (Some ''int n;\<newline>\<newline>fgets(buf, 64, stdin);\<newline>fgets(buf, 64, stdin);\<newline>'')"
    by (simp add: fix_file_twice_def fix_file_def blank1 blank2 gr process_unit_decision
          plain_decision isspace_def bp copy2_def)
  from once twice once_blank twice_blank show ?thesis by blast
qed

subsection \<open>Answers and files outside the expected shape\<close>

text \<open>
  An answer that decodes to a JSON list holding the string \<open>fixed_line\<close> passes the
  test \<open>'fixed_line' in fix_data\<close>, and the subscript then raises \<open>TypeError\<close>; an
  answer whose \<open>fixed_line\<close> is \<open>null\<close> raises \<open>AttributeError\<close> at \<open>.rstrip()\<close>.
  Nothing catches either.
\<close>

lemma malformed_answer_raises:
  "process_unit example_loads (answering ''list'')
     ([''int main() {\<newline>'', ''    gets(buf);\<newline>'', ''}\<newline>''], 0) [finding_at 2]
     = Inl TypeError \<and>
   fix_file example_loads (answering ''list'') ''/src/checked/a.c'' [finding_at 2] example_fs
     = Inl TypeError \<and>
   process_unit example_loads (answering ''null'')
     ([''int main() {\<newline>'', ''    gets(buf);\<newline>'', ''}\<newline>''], 0) [finding_at 2]
     = Inl AttributeError \<and>
   fix_file example_loads (answering ''null'') ''/src/checked/a.c'' [finding_at 2] example_fs
     = Inl AttributeError"
proof -
  have list_answer: "query_llm_for_fix example_loads (answering ''list'') ol ctx v
                  = PyList [PyStr ''fixed_line'']" for ol ctx v
    by (simp add: query_llm_for_fix_def answering_def example_loads_def)
  have null_answer: "query_llm_for_fix example_loads (answering ''null'') ol ctx v
                  = PyDict [(''reason'', PyStr ''nothing to fix''), (''fixed_line'', PyNone)]"
    for ol ctx v
    by (simp add: query_llm_for_fix_def answering_def example_loads_def)
  have unit1: "process_unit example_loads (answering ''list'')
     ([''int main() {\<newline>'', ''    gets(buf);\<newline>'', ''}\<newline>''], 0) [finding_at 2]
     = Inl TypeError"
    by (simp add: process_unit_decision list_answer unit_decision_def)
  have unit2: "process_unit example_loads (answering ''null'')
     ([''int main() {\<newline>'', ''    gets(buf);\<newline>'', ''}\<newline>''], 0) [finding_at 2]
     = Inl AttributeError"
    by (simp add: process_unit_decision null_answer unit_decision_def)
  have gr: "group_vulnerabilities [finding_at 2] = [[finding_at 2]]"
    by (simp add: group_vulnerabilities_def)
  have file1: "fix_file example_loads (answering ''list'') ''/src/checked/a.c'' [finding_at 2]
          example_fs = Inl TypeError"
    by (simp add: fix_file_def example_fs_def example_lines gr unit1)
  have file2: "fix_file example_loads (answering ''null'') ''/src/checked/a.c'' [finding_at 2]
          example_fs = Inl AttributeError"
    by (simp add: fix_file_def example_fs_def example_lines gr unit2)
  from unit1 file1 unit2 file2 show ?thesis by blast
qed

text \<open>
  A file with \<open>\r\n\<close> line endings is read with \<open>\n\<close> endings; after one accepted fix
  it is written back with \<open>\n\<close> endings on every line, while the backup keeps the
  content as it was.
\<close>

lemma crlf_line_endings_rewritten:
  "map_sum id (\<lambda>fs. (fs ''/src/checked/w.c'', fs ''/src/checked/w.bak''))
     (fix_file example_loads (answering ''plain'') ''/src/checked/w.c''
        [finding_in ''/src/checked/w.c'' 2]
        [''/src/checked/w.c'' \<mapsto> ''int n;'' @ [CHR 0x0D, CHR 0x0A] @ ''gets(buf);'' @ [CHR 0x0D, CHR 0x0A]])
     = Inr (Some ''int n;\<newline>fgets(buf, 64, stdin);\<newline>'',
            Some (''int n;'' @ [CHR 0x0D, CHR 0x0A] @ ''gets(buf);'' @ [CHR 0x0D, CHR 0x0A]))"
proof -
  have rl: "readlines (''int n;'' @ [CHR 0x0D, CHR 0x0A] @ ''gets(buf);'' @ [CHR 0x0D, CHR 0x0A])
              = [''int n;\<newline>'', ''gets(buf);\<newline>'']"
    by (simp add: readlines_def)
  have gr: "group_vulnerabilities [finding_in ''/src/checked/w.c'' 2]
              = [[finding_in ''/src/checked/w.c'' 2]]"
    by (simp add: group_vulnerabilities_def)
  have ln: "line (finding_in ''/src/checked/w.c'' 2) = 2"
    by (simp add: finding_in_def)
  have bp: "backup_path ''/src/checked/w.c'' = Inr ''/src/checked/w.bak''"
    by (simp add: backup_path_def with_suffix_def suffix_def path_name_def)
  show ?thesis
    using rl by (simp add: fix_file_def gr ln process_unit_decision plain_decision isspace_def
                   bp copy2_def)
qed

end
